theory Spec2Isabelle
  imports Main
begin

section \<open>Text and character classes\<close>

text \<open>
  The text of a decision is a Python \<open>str\<close>. It is modelled as a \<open>string\<close>, one
  \<open>char\<close> per code point, which covers the code points up to U+00FF. The three
  character classes of the patterns are those of Python's \<open>re\<close> for \<open>str\<close> patterns
  (Unicode matching), restricted to that range:
  \<open>\s\<close> is \<open>str.isspace\<close>, \<open>\d\<close> is the decimal digits, \<open>\w\<close> is the
  alphanumeric characters and the underscore.
\<close>

definition is_space :: "char \<Rightarrow> bool" where
  "is_space c =
     (let n = (of_char c :: nat)
      in (9 \<le> n \<and> n \<le> 13) \<or> (28 \<le> n \<and> n \<le> 32) \<or> n = 133 \<or> n = 160)"

definition is_digit :: "char \<Rightarrow> bool" where
  "is_digit c = (let n = (of_char c :: nat) in 48 \<le> n \<and> n \<le> 57)"

definition is_word :: "char \<Rightarrow> bool" where
  "is_word c =
     (let n = (of_char c :: nat)
      in (48 \<le> n \<and> n \<le> 57) \<or> (65 \<le> n \<and> n \<le> 90) \<or> n = 95 \<or> (97 \<le> n \<and> n \<le> 122)
         \<or> n = 170 \<or> n = 178 \<or> n = 179 \<or> n = 181 \<or> n = 185 \<or> n = 186
         \<or> (188 \<le> n \<and> n \<le> 190) \<or> (192 \<le> n \<and> n \<le> 214) \<or> (216 \<le> n \<and> n \<le> 246)
         \<or> 248 \<le> n)"

section \<open>The fragment of Python's regular expressions the patterns use\<close>

text \<open>
  An atom matches one character. The quantifiers \<open>+\<close>, \<open>*\<close> and \<open>{n}\<close> are applied
  to atoms only in \<open>citations.py\<close>; \<open>?\<close> is applied to atoms and to groups.
\<close>

datatype atom =
    Lit char        \<comment> \<open>a literal character\<close>
  | OneOf string    \<comment> \<open>a set \<open>[...]\<close>\<close>
  | Space           \<comment> \<open>\<open>\s\<close>\<close>
  | Digit           \<comment> \<open>\<open>\d\<close>\<close>
  | Word            \<comment> \<open>\<open>\w\<close>\<close>

datatype regex =
    Eps                 \<comment> \<open>the empty pattern\<close>
  | One atom
  | Seq regex regex     \<comment> \<open>concatenation\<close>
  | Alt regex regex     \<comment> \<open>\<open>a|b\<close>, the left branch first\<close>
  | Opt regex           \<comment> \<open>greedy \<open>?\<close>\<close>
  | Star atom           \<comment> \<open>greedy \<open>*\<close>\<close>
  | Plus atom           \<comment> \<open>greedy \<open>+\<close>\<close>
  | Rep nat atom        \<comment> \<open>\<open>{n}\<close>\<close>
  | Group nat regex     \<comment> \<open>a capturing group and its number\<close>

fun accepts :: "atom \<Rightarrow> char \<Rightarrow> bool" where
  "accepts (Lit a) c = (c = a)"
| "accepts (OneOf as) c = (c \<in> set as)"
| "accepts Space c = is_space c"
| "accepts Digit c = is_digit c"
| "accepts Word c = is_word c"

type_synonym groups = "nat \<Rightarrow> string option"

text \<open>
  A configuration of the backtracking matcher is the text still to be read and the
  groups captured so far. \<open>matches r cfg\<close> lists the configurations in which a match
  of \<open>r\<close> can end, in the order in which the backtracking engine tries them: the
  first is the one it takes if the rest of the pattern matches after it.
\<close>

type_synonym config = "string \<times> groups"

fun star_ends :: "atom \<Rightarrow> string \<Rightarrow> string list" where
  "star_ends a [] = [[]]"
| "star_ends a (c # cs) = (if accepts a c then star_ends a cs @ [c # cs] else [c # cs])"

fun rep_ends :: "nat \<Rightarrow> atom \<Rightarrow> string \<Rightarrow> string list" where
  "rep_ends 0 a s = [s]"
| "rep_ends (Suc n) a [] = []"
| "rep_ends (Suc n) a (c # cs) = (if accepts a c then rep_ends n a cs else [])"

fun matches :: "regex \<Rightarrow> config \<Rightarrow> config list" where
  "matches Eps cfg = [cfg]"
| "matches (One a) (s, g) =
     (case s of [] \<Rightarrow> [] | c # cs \<Rightarrow> if accepts a c then [(cs, g)] else [])"
| "matches (Seq r1 r2) cfg = concat (map (matches r2) (matches r1 cfg))"
| "matches (Alt r1 r2) cfg = matches r1 cfg @ matches r2 cfg"
| "matches (Opt r) cfg = matches r cfg @ [cfg]"
| "matches (Star a) (s, g) = map (\<lambda>rest. (rest, g)) (star_ends a s)"
| "matches (Plus a) (s, g) =
     (case s of [] \<Rightarrow> []
      | c # cs \<Rightarrow> if accepts a c then map (\<lambda>rest. (rest, g)) (star_ends a cs) else [])"
| "matches (Rep n a) (s, g) = map (\<lambda>rest. (rest, g)) (rep_ends n a s)"
| "matches (Group i r) (s, g) =
     map (\<lambda>(rest, g'). (rest, g'(i \<mapsto> take (length s - length rest) s))) (matches r (s, g))"

text \<open>A match object: the text matched (\<open>m.group(0)\<close>) and the groups.\<close>

record match =
  group0 :: string
  groups :: groups

definition match_at :: "regex \<Rightarrow> string \<Rightarrow> match option" where
  "match_at r s =
     (case matches r (s, Map.empty) of
        [] \<Rightarrow> None
      | (rest, g) # _ \<Rightarrow> Some \<lparr>group0 = take (length s - length rest) s, groups = g\<rparr>)"

text \<open>
  \<open>re.finditer\<close>: the matches from left to right, none overlapping another. The
  scan tries each position in turn; after a match it skips the characters the
  match has read. No pattern of this program matches the empty string.
\<close>

fun scan :: "regex \<Rightarrow> nat \<Rightarrow> string \<Rightarrow> match list" where
  "scan r skip [] = []"
| "scan r skip (c # cs) =
     (if 0 < skip then scan r (skip - 1) cs
      else (case match_at r (c # cs) of
              None \<Rightarrow> scan r 0 cs
            | Some m \<Rightarrow> m # scan r (length (group0 m) - 1) cs))"

definition finditer :: "regex \<Rightarrow> string \<Rightarrow> match list" where
  "finditer r text = scan r 0 text"

text \<open>\<open>re.sub(pattern, repl, s)\<close>: every match replaced by \<open>repl\<close>.\<close>

fun sub_scan :: "regex \<Rightarrow> string \<Rightarrow> nat \<Rightarrow> string \<Rightarrow> string" where
  "sub_scan r repl skip [] = []"
| "sub_scan r repl skip (c # cs) =
     (if 0 < skip then sub_scan r repl (skip - 1) cs
      else (case match_at r (c # cs) of
              None \<Rightarrow> c # sub_scan r repl 0 cs
            | Some m \<Rightarrow> repl @ sub_scan r repl (length (group0 m) - 1) cs))"

definition re_sub :: "regex \<Rightarrow> string \<Rightarrow> string \<Rightarrow> string" where
  "re_sub r repl s = sub_scan r repl 0 s"

text \<open>A literal word, and a sequence of patterns.\<close>

definition lit :: "string \<Rightarrow> regex" where
  "lit w = foldr (\<lambda>c r. Seq (One (Lit c)) r) w Eps"

definition seqs :: "regex list \<Rightarrow> regex" where
  "seqs rs = foldr Seq rs Eps"

section \<open>The five pattern families of \<open>extract_citations\<close>\<close>

text \<open>The optional page marker \<open>(?:\s+s\.\s+(\d+))?\<close> shared by four families.\<close>

definition page_marker :: regex where
  "page_marker =
     Opt (seqs [Plus Space, One (Lit CHR ''s''), One (Lit CHR ''.''), Plus Space,
                Group 2 (Plus Digit)])"

text \<open>\<open>\d{4}\/(?:\d{2}|2000):\<close>, the parliamentary session of a bill, report or motion.\<close>

definition session :: regex where
  "session = seqs [Rep 4 Digit, One (Lit CHR ''/''), Alt (Rep 2 Digit) (lit ''2000''),
                   One (Lit CHR '':'')]"

text \<open>\<open>NJA\s+\d{4}\s+s\.?\s+\d+(\s+I*V)?\<close>\<close>

definition nja_re :: regex where
  "nja_re =
     seqs [lit ''NJA'', Plus Space, Rep 4 Digit, Plus Space, One (Lit CHR ''s''),
           Opt (One (Lit CHR ''.'')), Plus Space, Plus Digit,
           Opt (Group 1 (seqs [Plus Space, Star (Lit CHR ''I''), One (Lit CHR ''V'')]))]"

text \<open>\<open>[pP]rop(?:osition|\.)?\s+(\d{4}\/(?:\d{2}|2000):\d+)(?:\s+s\.\s+(\d+))?\<close>\<close>

definition prop_re :: regex where
  "prop_re =
     seqs [One (OneOf ''pP''), lit ''rop'', Opt (Alt (lit ''osition'') (One (Lit CHR ''.''))),
           Plus Space, Group 1 (seqs [session, Plus Digit]), page_marker]"

text \<open>\<open>(SOU\s+\d{4}:\d+)(?:\s+s\.\s+(\d+))?\<close>\<close>

definition sou_re :: regex where
  "sou_re =
     seqs [Group 1 (seqs [lit ''SOU'', Plus Space, Rep 4 Digit, One (Lit CHR '':''),
                          Plus Digit]),
           page_marker]"

text \<open>
  \<open>[bB]et(?:...nkande|\.)?\s+(\d{4}\/(?:\d{2}|2000):\w+\d+)(?:\s+s\.\s+(\d+))?\<close>,
  where the source file has the two code points U+00C3 and U+00A4 between
  \<open>bet\<close> and \<open>nkande\<close>.
\<close>

definition bet_re :: regex where
  "bet_re =
     seqs [One (OneOf ''bB''), lit ''et'',
           Opt (Alt (seqs [One (Lit (char_of (195 :: nat))), One (Lit (char_of (164 :: nat))),
                           lit ''nkande''])
                    (One (Lit CHR ''.''))),
           Plus Space, Group 1 (seqs [session, Plus Word, Plus Digit]), page_marker]"

text \<open>\<open>[mM]ot(?:ion|\.)?\s+(\d{4}\/(?:\d{2}|2000):\d{2})(?:\s+s\.\s+(\d+))?\<close>\<close>

definition mot_re :: regex where
  "mot_re =
     seqs [One (OneOf ''mM''), lit ''ot'', Opt (Alt (lit ''ion'') (One (Lit CHR ''.''))),
           Plus Space, Group 1 (seqs [session, Rep 2 Digit]), page_marker]"

text \<open>
  \<open>m.group(1)\<close> as a string. Group 1 is outside every optional part of the four
  patterns that read it, so it is set in each of their matches (lemma
  \<open>group1_set\<close> below) and the empty default is never taken.
\<close>

definition group_str :: "match \<Rightarrow> nat \<Rightarrow> string" where
  "group_str m i = (case groups m i of None \<Rightarrow> [] | Some t \<Rightarrow> t)"

definition collapse_ws :: "string \<Rightarrow> string" where
  "collapse_ws s = re_sub (Plus Space) '' '' s"

text \<open>
  \<open>extract_citations\<close>, after \<open>extract_text\<close> has returned the text: the pairs
  (citation, page) of the five families, each family scanned over the whole text
  before the next. The page is \<open>None\<close> when group 2 did not take part in the match.
\<close>

type_synonym pair = "string \<times> string option"

definition nja_pairs :: "string \<Rightarrow> pair list" where
  "nja_pairs text = map (\<lambda>m. (collapse_ws (group0 m), None)) (finditer nja_re text)"

definition prop_pairs :: "string \<Rightarrow> pair list" where
  "prop_pairs text = map (\<lambda>m. (''Prop. '' @ group_str m 1, groups m 2)) (finditer prop_re text)"

definition sou_pairs :: "string \<Rightarrow> pair list" where
  "sou_pairs text = map (\<lambda>m. (collapse_ws (group_str m 1), groups m 2)) (finditer sou_re text)"

definition bet_pairs :: "string \<Rightarrow> pair list" where
  "bet_pairs text = map (\<lambda>m. (''bet. '' @ group_str m 1, groups m 2)) (finditer bet_re text)"

definition mot_pairs :: "string \<Rightarrow> pair list" where
  "mot_pairs text = map (\<lambda>m. (''Mot. '' @ group_str m 1, groups m 2)) (finditer mot_re text)"

definition citations_of_text :: "string \<Rightarrow> pair list" where
  "citations_of_text text =
     nja_pairs text @ prop_pairs text @ sou_pairs text @ bet_pairs text @ mot_pairs text"

section \<open>Aggregation of the pairs\<close>

text \<open>
  \<open>citations = defaultdict(set)\<close>: a dictionary in insertion order, as an
  association list with one entry per key; the page sets are sets.
\<close>

type_synonym citations = "(string \<times> string set) list"

text \<open>\<open>citations[citation]\<close>: a missing key is inserted with the empty set.\<close>

definition touch :: "citations \<Rightarrow> string \<Rightarrow> citations" where
  "touch d k = (if k \<in> set (map fst d) then d else d @ [(k, {})])"

text \<open>\<open>citations[citation].add(page)\<close>\<close>

definition add_page :: "citations \<Rightarrow> string \<Rightarrow> string \<Rightarrow> citations" where
  "add_page d k p =
     map (\<lambda>(k', ps). if k' = k then (k', insert p ps) else (k', ps)) (touch d k)"

text \<open>
  The body of the loop at lines 121 to 125. \<open>if page:\<close> is Python's truth test:
  \<open>None\<close> and the empty string both take the \<open>else\<close> branch.
\<close>

fun aggregate_step :: "citations \<Rightarrow> pair \<Rightarrow> citations" where
  "aggregate_step d (citation, page) =
     (case page of
        None \<Rightarrow> touch d citation
      | Some p \<Rightarrow> if p \<noteq> [] then add_page d citation p else touch d citation)"

definition aggregate :: "pair list \<Rightarrow> citations" where
  "aggregate pairs = foldl aggregate_step [] pairs"

section \<open>The knowledge base, the state of a run and the resolver\<close>

datatype error =
    NameError string
  | ValueError
  | TransportError
  | ExtractionError
  | WriteError

text \<open>
  The objects of the knowledge-base library are taken as data: a value, the number
  of its property and, for a monolingual text, its language.
\<close>

datatype snak =
    WDUrl string string
  | WDMonolingualText string string string
  | WDTime string string
  | WDString string string

text \<open>
  A \<open>WDItemID\<close> statement with its references and its qualifiers. The qualifiers
  are built by iterating over a Python set, whose order is not specified; they
  are kept as a set.
\<close>

record statement =
  target :: string
  prop_nr :: string
  references :: "snak list list"
  qualifiers :: "snak set"

text \<open>The entries of \<open>PROPS\<close> that the program reads.\<close>

definition PROPS_title :: string where "PROPS_title = ''P1476''"
definition PROPS_date :: string where "PROPS_date = ''P577''"
definition PROPS_page :: string where "PROPS_page = ''P304''"
definition PROPS_cites :: string where "PROPS_cites = ''P2860''"
definition PROPS_ref_url :: string where "PROPS_ref_url = ''P854''"
definition PROPS_retrieved :: string where "PROPS_retrieved = ''P813''"

text \<open>
  One row of the discovery query: \<open>?item\<close>, \<open>?url\<close> and \<open>?date\<close> are bound in every
  row, \<open>?title\<close> stands in an \<open>OPTIONAL\<close> clause.
\<close>

record binding =
  b_item :: string
  b_url :: string
  b_date :: string
  b_title :: "string option"

text \<open>
  The collaborators outside the program: the download of a document, the text
  extraction of \<open>pdfminer\<close>, the query service (its answer given by the values of
  \<open>?item\<close> in the rows), the write of an item's statements (\<open>None\<close> on success),
  the day of the run as \<open>strftime\<close> formats it, and the test that the constructor
  \<open>WDItemID\<close> of the knowledge-base library makes on its value: it raises
  \<open>ValueError\<close> for a value that it does not read as the identifier of an item.
  The query service is taken to answer a query in the same way throughout a run.
\<close>

record env =
  requests_get :: "string \<Rightarrow> error + string"
  extract_text :: "string \<Rightarrow> error + string"
  execute_sparql_query :: "string \<Rightarrow> error + string list"
  wd_write :: "string \<Rightarrow> statement list \<Rightarrow> error option"
  utcnow :: string
  item_id_ok :: "string \<Rightarrow> bool"

text \<open>
  What a run changes: the lines printed, the module-level variable \<open>ref_date\<close>
  (\<open>None\<close> while it is unbound), the entries of the \<open>lru_cache\<close> of
  \<open>query_legal_citation\<close> (the most recently used first), the queries sent to the
  query service by \<open>query_legal_citation\<close>, and the writes that succeeded.
\<close>

record state =
  printed :: "string list"
  ref_date :: "string option"
  cache :: "(string \<times> string list) list"
  queries :: "string list"
  written :: "(string \<times> statement list) list"

definition init_state :: state where
  "init_state = \<lparr>printed = [], ref_date = None, cache = [], queries = [], written = []\<rparr>"

definition print :: "string \<Rightarrow> state \<Rightarrow> state" where
  "print line st = st\<lparr>printed := printed st @ [line]\<rparr>"

text \<open>\<open>s.rpartition('/')[2]\<close>: what follows the last \<open>/\<close>, all of \<open>s\<close> when it has none.\<close>

definition rpartition_tail :: "string \<Rightarrow> string" where
  "rpartition_tail s = rev (takeWhile (\<lambda>c. c \<noteq> CHR ''/'') (rev s))"

fun join :: "string \<Rightarrow> string list \<Rightarrow> string" where
  "join sep [] = []"
| "join sep [x] = x"
| "join sep (x # y # ys) = x @ sep @ join sep (y # ys)"

text \<open>The query of \<open>query_legal_citation\<close>; character 34 is the double quote.\<close>

definition citation_query :: "string \<Rightarrow> string" where
  "citation_query citation =
     ''SELECT * WHERE { ?item wdt:P1031 '' @ [char_of (34 :: nat)] @ citation @
     [char_of (34 :: nat)] @ '' }''"

text \<open>The body of \<open>query_legal_citation\<close>, without the cache.\<close>

definition lookup_citation :: "env \<Rightarrow> string \<Rightarrow> error + string list" where
  "lookup_citation e citation =
     (case execute_sparql_query e (citation_query citation) of
        Inl err \<Rightarrow> Inl err
      | Inr rows \<Rightarrow> Inr (map rpartition_tail rows))"

definition maxsize :: nat where
  "maxsize = 2 ^ 15"

text \<open>
  \<open>query_legal_citation\<close> under \<open>@lru_cache(maxsize=2**15)\<close>. A hit returns the
  cached list and makes the entry the most recently used. A miss runs the body;
  an exception of the body leaves the cache as it was; a result is stored as the
  most recently used entry, and the least recently used entry is dropped when
  the cache already holds \<open>maxsize\<close> entries.
\<close>

definition query_legal_citation :: "env \<Rightarrow> state \<Rightarrow> string \<Rightarrow> (error + string list) \<times> state" where
  "query_legal_citation e st citation =
     (case map_of (cache st) citation of
        Some targets \<Rightarrow>
          (Inr targets,
           st\<lparr>cache := (citation, targets) # filter (\<lambda>kv. fst kv \<noteq> citation) (cache st)\<rparr>)
      | None \<Rightarrow>
          (let st1 = st\<lparr>queries := queries st @ [citation_query citation]\<rparr>
           in case lookup_citation e citation of
                Inl err \<Rightarrow> (Inl err, st1)
              | Inr targets \<Rightarrow>
                  (Inr targets, st1\<lparr>cache := take maxsize ((citation, targets) # cache st)\<rparr>)))"

section \<open>The processing of one decision and the run\<close>

datatype outcome = Done | Raised error

text \<open>
  Lines 99 to 113. In the \<open>try\<close> block \<open>binding['title']\<close> is read before
  \<open>ref_date\<close> is assigned; when the row has no title the handler reads
  \<open>ref_date\<close> as the last decision with a title left it, and raises
  \<open>NameError\<close> when no decision has assigned it yet.
\<close>

definition make_refs :: "env \<Rightarrow> state \<Rightarrow> binding \<Rightarrow> error + (snak list list \<times> state)" where
  "make_refs e st b =
     (case b_title b of
        Some ref_title \<Rightarrow>
          Inr ([[WDUrl (b_url b) PROPS_ref_url,
                 WDMonolingualText ref_title PROPS_title ''sv'',
                 WDTime (''+'' @ b_date b) PROPS_date,
                 WDTime (utcnow e) PROPS_retrieved]],
               st\<lparr>ref_date := Some (b_date b)\<rparr>)
      | None \<Rightarrow>
          (case ref_date st of
             None \<Rightarrow> Inl (NameError ''ref_date'')
           | Some d \<Rightarrow>
               Inr ([[WDUrl (b_url b) PROPS_ref_url,
                      WDTime (''+'' @ d) PROPS_date,
                      WDTime (utcnow e) PROPS_retrieved]],
                    st)))"

text \<open>Lines 119 to 125: the text extraction, the five scans and the aggregation.\<close>

definition collect_citations :: "env \<Rightarrow> string \<Rightarrow> error + citations" where
  "collect_citations e content =
     (case extract_text e content of
        Inl err \<Rightarrow> Inl err
      | Inr text \<Rightarrow> Inr (aggregate (citations_of_text text)))"

definition no_item_line :: "string \<Rightarrow> string \<Rightarrow> string" where
  "no_item_line item citation =
     ''Item '' @ item @ '': Found no item with legal citation '' @ citation @ ''.''"

text \<open>
  Line 135: the list printed after the citation is read from \<open>r\<close>, the result of
  the discovery query, not from \<open>targets\<close>.
\<close>

definition multiple_items_line :: "binding list \<Rightarrow> string \<Rightarrow> string \<Rightarrow> string" where
  "multiple_items_line r item citation =
     ''Item '' @ item @ '': Found multiple items with legal citation '' @ citation @ '': '' @
     join '', '' (map (\<lambda>bound. rpartition_tail (b_item bound)) r) @ ''.''"

text \<open>
  \<open>wdi_core.WDItemID(target, prop_nr, references=refs)\<close> of line 138: the
  constructor raises \<open>ValueError\<close> for a target that is not the identifier of an
  item; the statement that it builds has no qualifier.
\<close>

definition WDItemID :: "env \<Rightarrow> string \<Rightarrow> string \<Rightarrow> snak list list \<Rightarrow> error + statement" where
  "WDItemID e tgt prop refs =
     (if item_id_ok e tgt
      then Inr \<lparr>target = tgt, prop_nr = prop, references = refs, qualifiers = {}\<rparr>
      else Inl ValueError)"

text \<open>\<open>set_qualifiers\<close> of line 139 replaces the qualifiers of the statement.\<close>

definition set_qualifiers :: "snak set \<Rightarrow> statement \<Rightarrow> statement" where
  "set_qualifiers quals link = link\<lparr>qualifiers := quals\<rparr>"

text \<open>
  Lines 129 to 139. The call of \<open>query_legal_citation\<close> and the construction of
  the statement stand in no \<open>try\<close> block: an exception of the lookup or of the
  constructor leaves the loop and the decision, and the statement is not
  appended.
\<close>

fun resolve_loop ::
  "env \<Rightarrow> binding list \<Rightarrow> string \<Rightarrow> snak list list \<Rightarrow> citations \<Rightarrow> state \<times> statement list \<Rightarrow>
   outcome \<times> state \<times> statement list" where
  "resolve_loop e r item refs [] (st, statements) = (Done, st, statements)"
| "resolve_loop e r item refs ((citation, pages) # rest) (st, statements) =
     (case query_legal_citation e st citation of
        (Inl err, st1) \<Rightarrow> (Raised err, st1, statements)
      | (Inr targets, st1) \<Rightarrow>
          if targets = [] then
            resolve_loop e r item refs rest (print (no_item_line item citation) st1, statements)
          else if 1 < length targets then
            resolve_loop e r item refs rest
              (print (multiple_items_line r item citation) st1, statements)
          else
            (case WDItemID e (hd targets) PROPS_cites refs of
               Inl err \<Rightarrow> (Raised err, st1, statements)
             | Inr link \<Rightarrow>
                 resolve_loop e r item refs rest
                   (st1,
                    statements @
                      [set_qualifiers ((\<lambda>page. WDString page PROPS_page) ` pages) link])))"

text \<open>Lines 140 to 146.\<close>

definition write_step :: "env \<Rightarrow> string \<Rightarrow> statement list \<Rightarrow> state \<Rightarrow> outcome \<times> state" where
  "write_step e item statements st =
     (if statements = [] then (Done, st)
      else (case wd_write e item statements of
              None \<Rightarrow> (Done, st\<lparr>written := written st @ [(item, statements)]\<rparr>)
            | Some err \<Rightarrow> (Raised err, print (''Error when editing item '' @ item) st)))"

text \<open>The body of the loop over the rows of the discovery query, lines 95 to 146.\<close>

definition process_decision :: "env \<Rightarrow> binding list \<Rightarrow> state \<Rightarrow> binding \<Rightarrow> outcome \<times> state" where
  "process_decision e r st b =
     (let item = rpartition_tail (b_item b); pdf = b_url b
      in case make_refs e st b of
           Inl err \<Rightarrow> (Raised err, st)
         | Inr (refs, st1) \<Rightarrow>
             (case requests_get e pdf of
                Inl _ \<Rightarrow> (Done, print (''Error when fetching file for item '' @ item) st1)
              | Inr content \<Rightarrow>
                  (case collect_citations e content of
                     Inl _ \<Rightarrow> (Done, print (''Error when parsing file for item '' @ item) st1)
                   | Inr citations \<Rightarrow>
                       (case resolve_loop e r item refs citations (st1, []) of
                          (Raised err, st2, _) \<Rightarrow> (Raised err, st2)
                        | (Done, st2, statements) \<Rightarrow> write_step e item statements st2))))"

text \<open>
  The loop of line 94: an exception that leaves the body ends the program, and
  the rows after it are not processed.
\<close>

fun run :: "env \<Rightarrow> binding list \<Rightarrow> binding list \<Rightarrow> state \<Rightarrow> outcome \<times> state" where
  "run e r [] st = (Done, st)"
| "run e r (b # bs) st =
     (case process_decision e r st b of
        (Raised err, st') \<Rightarrow> (Raised err, st')
      | (Done, st') \<Rightarrow> run e r bs st')"

definition main :: "env \<Rightarrow> binding list \<Rightarrow> outcome \<times> state" where
  "main e r = run e r r init_state"

section \<open>Notions used to state the properties\<close>

text \<open>The page set bound to a key of the dictionary, empty for a missing key.\<close>

definition bound :: "citations \<Rightarrow> string \<Rightarrow> string set" where
  "bound d k = (case map_of d k of None \<Rightarrow> {} | Some ps \<Rightarrow> ps)"

text \<open>The pages that \<open>if page:\<close> lets through for a key in a sequence of pairs.\<close>

definition pages_in :: "pair list \<Rightarrow> string \<Rightarrow> string set" where
  "pages_in pairs k = {p. (k, Some p) \<in> set pairs \<and> p \<noteq> []}"

text \<open>
  The cache holds at most \<open>maxsize\<close> entries, one for a key, and each entry is
  the result that the body of \<open>query_legal_citation\<close> gives for its key.
\<close>

definition cache_ok :: "env \<Rightarrow> state \<Rightarrow> bool" where
  "cache_ok e st \<longleftrightarrow>
     distinct (map fst (cache st)) \<and> length (cache st) \<le> maxsize \<and>
     (\<forall>kv \<in> set (cache st). lookup_citation e (fst kv) = Inr (snd kv))"

text \<open>A sequence of calls of \<open>query_legal_citation\<close>, whatever each returns or raises.\<close>

fun call_all :: "env \<Rightarrow> state \<Rightarrow> string list \<Rightarrow> state" where
  "call_all e st [] = st"
| "call_all e st (k # ks) = call_all e (snd (query_legal_citation e st k)) ks"

text \<open>
  The loop gets past a key: the lookup of the key returns, and a candidate that
  stands alone is an identifier that \<open>WDItemID\<close> accepts.
\<close>

definition resolves :: "env \<Rightarrow> string \<times> string set \<Rightarrow> bool" where
  "resolves e kp =
     (case lookup_citation e (fst kp) of
        Inl err \<Rightarrow> False
      | Inr targets \<Rightarrow> length targets = 1 \<longrightarrow> item_id_ok e (hd targets))"

text \<open>
  The link of the specification: a statement of the property \<open>cites\<close> to a
  target, with the references of the decision and a page qualifier for each page.
\<close>

definition cites :: "string \<Rightarrow> snak list list \<Rightarrow> string set \<Rightarrow> statement" where
  "cites tgt refs pages =
     \<lparr>target = tgt, prop_nr = PROPS_cites, references = refs,
      qualifiers = (\<lambda>page. WDString page PROPS_page) ` pages\<rparr>"

text \<open>
  The resolution policy in the words of the specification: one link for a key
  with exactly one candidate, to that candidate and with the key's pages as
  qualifiers; no link for a key with no candidate or with several.
\<close>

fun links_for :: "env \<Rightarrow> snak list list \<Rightarrow> string \<times> string set \<Rightarrow> statement list" where
  "links_for e refs (citation, pages) =
     (case lookup_citation e citation of
        Inr [tgt] \<Rightarrow> [cites tgt refs pages]
      | _ \<Rightarrow> [])"

subsection \<open>Example inputs\<close>

text \<open>
  The identifiers of items, as the library tests them: the letter Q followed by
  decimal digits.
\<close>

definition q_number :: "string \<Rightarrow> bool" where
  "q_number s = (case s of [] \<Rightarrow> False | c # ds \<Rightarrow> c = CHR ''Q'' \<and> ds \<noteq> [] \<and> list_all is_digit ds)"

text \<open>
  A world in which every download succeeds, the text of every document is
  \<open>text\<close>, the query service answers as \<open>answer\<close> says and every write ends as
  \<open>write_result\<close> says.
\<close>

definition world :: "string \<Rightarrow> (string \<Rightarrow> error + string list) \<Rightarrow> error option \<Rightarrow> env" where
  "world text answer write_result =
     \<lparr>requests_get = (\<lambda>u. Inr ''%PDF-1.4''),
      extract_text = (\<lambda>c. Inr text),
      execute_sparql_query = answer,
      wd_write = (\<lambda>i ss. write_result),
      utcnow = ''+2026-11-04T00:00:00Z'',
      item_id_ok = q_number\<rparr>"

text \<open>A knowledge base with no item for any citation.\<close>

definition empty_store :: env where
  "empty_store =
     \<lparr>requests_get = (\<lambda>u. Inl TransportError), extract_text = (\<lambda>c. Inl ExtractionError),
      execute_sparql_query = (\<lambda>q. Inr []), wd_write = (\<lambda>i ss. None),
      utcnow = ''+2026-11-04T00:00:00Z'', item_id_ok = q_number\<rparr>"

text \<open>Two rows of the discovery query, the second without a title.\<close>

definition decision_a :: binding where
  "decision_a =
     \<lparr>b_item = ''http://www.wikidata.org/entity/Q100'', b_url = ''https://example.org/a.pdf'',
      b_date = ''2020-03-02T00:00:00Z'', b_title = Some ''T 1234-19''\<rparr>"

definition decision_b :: binding where
  "decision_b =
     \<lparr>b_item = ''http://www.wikidata.org/entity/Q200'', b_url = ''https://example.org/b.pdf'',
      b_date = ''2019-11-12T00:00:00Z'', b_title = None\<rparr>"

definition two_items :: "string \<Rightarrow> error + string list" where
  "two_items q = Inr [''http://www.wikidata.org/entity/Q1'', ''http://www.wikidata.org/entity/Q2'']"

definition one_item :: "string \<Rightarrow> error + string list" where
  "one_item q = Inr [''http://www.wikidata.org/entity/Q123'']"

text \<open>
  An answer for each outcome: no item for the case, one for the bill, two for the
  report, a failure of the query service for any other query.
\<close>

definition mixed :: "string \<Rightarrow> error + string list" where
  "mixed q =
     (if q = citation_query ''NJA 2019 s. 45'' then Inr []
      else if q = citation_query ''Prop. 2005/06:55'' then Inr [''http://www.wikidata.org/entity/Q123'']
      else if q = citation_query ''SOU 2001:3'' then
        Inr [''http://www.wikidata.org/entity/Q1'', ''http://www.wikidata.org/entity/Q2'']
      else Inl TransportError)"

text \<open>
  The answers of \<open>mixed\<close>, but with a lexeme as the only candidate for the report:
  an entity of the knowledge base whose identifier is not that of an item.
\<close>

definition with_lexeme :: "string \<Rightarrow> error + string list" where
  "with_lexeme q =
     (if q = citation_query ''SOU 2001:3'' then Inr [''http://www.wikidata.org/entity/L5'']
      else mixed q)"

text \<open>
  As many keys as the cache holds, all different, and the state after a lookup
  of \<open>NJA 2019 s. 45\<close> followed by a lookup of each of them.
\<close>

definition other_key :: "nat \<Rightarrow> string" where
  "other_key n = replicate n (CHR ''x'')"

definition other_keys :: "string list" where
  "other_keys = map other_key [1..<Suc maxsize]"

definition full_state :: state where
  "full_state =
     call_all empty_store (snd (query_legal_citation empty_store init_state ''NJA 2019 s. 45''))
       other_keys"

text \<open>The numbers of the groups of a pattern, and its atoms.\<close>

fun group_ids :: "regex \<Rightarrow> nat set" where
  "group_ids Eps = {}"
| "group_ids (One a) = {}"
| "group_ids (Seq r1 r2) = group_ids r1 \<union> group_ids r2"
| "group_ids (Alt r1 r2) = group_ids r1 \<union> group_ids r2"
| "group_ids (Opt r) = group_ids r"
| "group_ids (Star a) = {}"
| "group_ids (Plus a) = {}"
| "group_ids (Rep n a) = {}"
| "group_ids (Group i r) = insert i (group_ids r)"

fun atoms_of :: "regex \<Rightarrow> atom set" where
  "atoms_of Eps = {}"
| "atoms_of (One a) = {a}"
| "atoms_of (Seq r1 r2) = atoms_of r1 \<union> atoms_of r2"
| "atoms_of (Alt r1 r2) = atoms_of r1 \<union> atoms_of r2"
| "atoms_of (Opt r) = atoms_of r"
| "atoms_of (Star a) = {a}"
| "atoms_of (Plus a) = {a}"
| "atoms_of (Rep n a) = {a}"
| "atoms_of (Group i r) = atoms_of r"

text \<open>
  What a match tried at the start of a text decides for the scan: the groups,
  which give the key and the page, and the length of the text matched, which
  gives the position where the scan goes on.
\<close>

definition attempt :: "regex \<Rightarrow> string \<Rightarrow> (groups \<times> nat) option" where
  "attempt r s = map_option (\<lambda>m. (groups m, length (group0 m))) (match_at r s)"


text \<open>
  A pattern binds a group when the group is set in each of its matches: the
  group stands outside every optional part, and in both branches of an
  alternative.
\<close>

fun binds :: "nat \<Rightarrow> regex \<Rightarrow> bool" where
  "binds i Eps = False"
| "binds i (One a) = False"
| "binds i (Seq r1 r2) = (binds i r1 \<or> binds i r2)"
| "binds i (Alt r1 r2) = (binds i r1 \<and> binds i r2)"
| "binds i (Opt r) = False"
| "binds i (Star a) = False"
| "binds i (Plus a) = False"
| "binds i (Rep n a) = False"
| "binds i (Group j r) = (j = i \<or> binds i r)"

text \<open>
  The least number of characters that a match of a pattern reads, and the
  patterns in which the group \<open>i\<close>, wherever it is set, holds at least one
  character.
\<close>

fun min_len :: "regex \<Rightarrow> nat" where
  "min_len Eps = 0"
| "min_len (One a) = 1"
| "min_len (Seq r1 r2) = min_len r1 + min_len r2"
| "min_len (Alt r1 r2) = min (min_len r1) (min_len r2)"
| "min_len (Opt r) = 0"
| "min_len (Star a) = 0"
| "min_len (Plus a) = 1"
| "min_len (Rep n a) = n"
| "min_len (Group i r) = min_len r"

fun filled :: "nat \<Rightarrow> regex \<Rightarrow> bool" where
  "filled i Eps = True"
| "filled i (One a) = True"
| "filled i (Seq r1 r2) = (filled i r1 \<and> filled i r2)"
| "filled i (Alt r1 r2) = (filled i r1 \<and> filled i r2)"
| "filled i (Opt r) = filled i r"
| "filled i (Star a) = True"
| "filled i (Plus a) = True"
| "filled i (Rep n a) = True"
| "filled i (Group j r) = (filled i r \<and> (j = i \<longrightarrow> 0 < min_len r))"

text \<open>
  A pattern stops before \<open>z\<close> when no match of it reads into \<open>z\<close>: tried on a text
  followed by \<open>z\<close>, it ends where it ends on the text alone, with the same groups.
\<close>

definition ahead :: "string \<Rightarrow> config \<Rightarrow> config" where
  "ahead z cfg = (fst cfg @ z, snd cfg)"

definition stops :: "regex \<Rightarrow> string \<Rightarrow> bool" where
  "stops r z = (\<forall>u g. matches r (u @ z, g) = map (ahead z) (matches r (u, g)))"

text \<open>
  An occurrence of a keyword in a text: the keyword, then letters only (word
  characters that are not digits) up to the end of the word, which a character
  that is not a word character or the end of the text marks.
\<close>

definition letters :: "string \<Rightarrow> bool" where
  "letters w = list_all (\<lambda>c. is_word c \<and> \<not> is_digit c) w"

definition word_end :: "string \<Rightarrow> bool" where
  "word_end t = (case t of [] \<Rightarrow> True | c # cs \<Rightarrow> \<not> is_word c)"

section \<open>Aggregation\<close>

lemma keys_touch: "fst ` set (touch d k) = insert k (fst ` set d)"
  by (auto simp: touch_def)

lemma distinct_touch: "distinct (map fst d) \<Longrightarrow> distinct (map fst (touch d k))"
  by (auto simp: touch_def)

lemma map_of_touch:
  "map_of (touch d k) k' = (if k' = k \<and> k \<notin> fst ` set d then Some {} else map_of d k')"
proof (cases "k \<in> fst ` set d")
  case True
  then show ?thesis by (simp add: touch_def)
next
  case False
  then have "map_of d k = None" by (simp add: map_of_eq_None_iff)
  with False show ?thesis by (auto simp: touch_def map_add_def split: option.splits)
qed

lemma keys_add_page: "map fst (add_page d k p) = map fst (touch d k)"
  by (simp add: add_page_def case_prod_unfold comp_def if_distrib[of fst] cong: if_cong)

lemma map_of_map_insert:
  "map_of (map (\<lambda>(k', ps). if k' = k then (k', insert p ps) else (k', ps)) d) k' =
     (if k' = k then map_option (insert p) (map_of d k) else map_of d k')"
  by (induction d) auto

lemma bound_touch: "bound (touch d k) k' = bound d k'"
proof (cases "k' = k \<and> k \<notin> fst ` set d")
  case True
  then have "map_of d k = None" by (simp add: map_of_eq_None_iff)
  with True show ?thesis by (simp add: bound_def map_of_touch)
next
  case False
  then show ?thesis by (auto simp: bound_def map_of_touch)
qed

lemma bound_add_page:
  "bound (add_page d k p) k' = (if k' = k then insert p (bound d k) else bound d k')"
proof (cases "k' = k")
  case True
  have "k \<in> fst ` set (touch d k)" by (simp add: keys_touch)
  then obtain ps where ps: "map_of (touch d k) k = Some ps"
    by (cases "map_of (touch d k) k") (simp_all add: map_of_eq_None_iff)
  then have "bound (touch d k) k = ps" by (simp add: bound_def)
  then have "bound d k = ps" by (simp add: bound_touch)
  with True ps show ?thesis
    by (simp add: add_page_def bound_def map_of_map_insert)
next
  case False
  have "bound (add_page d k p) k' = bound (touch d k) k'"
    using False by (simp add: add_page_def bound_def map_of_map_insert)
  with False show ?thesis by (simp add: bound_touch)
qed

lemma keys_add_page': "fst ` set (add_page d k p) = insert k (fst ` set d)"
proof -
  have "fst ` set (add_page d k p) = set (map fst (add_page d k p))" by simp
  also have "\<dots> = set (map fst (touch d k))" by (simp only: keys_add_page)
  also have "\<dots> = insert k (fst ` set d)" by (simp add: keys_touch)
  finally show ?thesis .
qed

lemma keys_step: "fst ` set (aggregate_step d kp) = insert (fst kp) (fst ` set d)"
  by (cases kp) (simp add: keys_touch keys_add_page' split: option.splits)

lemma distinct_step: "distinct (map fst d) \<Longrightarrow> distinct (map fst (aggregate_step d kp))"
  by (cases kp) (simp add: distinct_touch keys_add_page split: option.splits)

lemma keys_foldl:
  "fst ` set (foldl aggregate_step d ps) = fst ` set d \<union> fst ` set ps"
proof (induction ps arbitrary: d)
  case Nil
  show ?case by simp
next
  case (Cons kp ps)
  show ?case unfolding foldl_Cons Cons.IH keys_step by auto
qed

lemma distinct_foldl:
  "distinct (map fst d) \<Longrightarrow> distinct (map fst (foldl aggregate_step d ps))"
proof (induction ps arbitrary: d)
  case Nil
  then show ?case by simp
next
  case (Cons kp ps)
  from Cons.prems have "distinct (map fst (aggregate_step d kp))" by (rule distinct_step)
  then show ?case unfolding foldl_Cons by (rule Cons.IH)
qed

lemma bound_step:
  "bound (aggregate_step d (k', page)) k =
     bound d k \<union> (case page of Some p \<Rightarrow> if k' = k \<and> p \<noteq> [] then {p} else {} | None \<Rightarrow> {})"
  by (auto simp: bound_touch bound_add_page split: option.splits)

lemma pages_in_Cons:
  "pages_in ((k', page) # ps) k =
     (case page of Some p \<Rightarrow> if k' = k \<and> p \<noteq> [] then {p} else {} | None \<Rightarrow> {}) \<union> pages_in ps k"
  by (auto simp: pages_in_def split: option.splits)

lemma bound_foldl:
  "bound (foldl aggregate_step d ps) k = bound d k \<union> pages_in ps k"
proof (induction ps arbitrary: d)
  case Nil
  then show ?case by (simp add: pages_in_def)
next
  case (Cons kp ps)
  obtain k' page where kp: "kp = (k', page)" by (cases kp)
  show ?case
    unfolding kp foldl_Cons Cons.IH bound_step pages_in_Cons by (simp add: Un_assoc)
qed

lemma aggregate_example:
  "aggregate [(''a'', Some ''1''), (''b'', None), (''a'', Some ''2''), (''a'', Some ''1'')] =
     [(''a'', {''1'', ''2''}), (''b'', {})]"
  by code_simp

section \<open>The memoized lookup\<close>

lemma cache_ok_init: "cache_ok e init_state"
  by (simp add: cache_ok_def init_state_def)

lemma qlc_hit:
  "map_of (cache st) k = Some v \<Longrightarrow>
   query_legal_citation e st k =
     (Inr v, st\<lparr>cache := (k, v) # filter (\<lambda>kv. fst kv \<noteq> k) (cache st)\<rparr>)"
  by (simp add: query_legal_citation_def)

lemma qlc_miss_ok:
  "map_of (cache st) k = None \<Longrightarrow> lookup_citation e k = Inr v \<Longrightarrow>
   query_legal_citation e st k =
     (Inr v, st\<lparr>queries := queries st @ [citation_query k],
               cache := take maxsize ((k, v) # cache st)\<rparr>)"
  by (simp add: query_legal_citation_def Let_def)

lemma qlc_miss_fail:
  "map_of (cache st) k = None \<Longrightarrow> lookup_citation e k = Inl err \<Longrightarrow>
   query_legal_citation e st k = (Inl err, st\<lparr>queries := queries st @ [citation_query k]\<rparr>)"
  by (simp add: query_legal_citation_def Let_def)

lemma cached_is_lookup:
  assumes "cache_ok e st" and "map_of (cache st) k = Some v"
  shows "lookup_citation e k = Inr v"
proof -
  from assms(2) have "(k, v) \<in> set (cache st)" by (rule map_of_SomeD)
  with assms(1) show ?thesis by (auto simp: cache_ok_def)
qed

lemma qlc_result:
  assumes "cache_ok e st"
  shows "fst (query_legal_citation e st k) = lookup_citation e k"
proof (cases "map_of (cache st) k")
  case None
  then show ?thesis
    by (cases "lookup_citation e k") (simp_all add: qlc_miss_ok qlc_miss_fail)
next
  case (Some v)
  with assms have "lookup_citation e k = Inr v" by (rule cached_is_lookup)
  with Some show ?thesis by (simp add: qlc_hit)
qed

lemma qlc_cache_ok:
  assumes "cache_ok e st"
  shows "cache_ok e (snd (query_legal_citation e st k))"
proof (cases "map_of (cache st) k")
  case None
  then have fresh: "k \<notin> fst ` set (cache st)" by (simp add: map_of_eq_None_iff)
  show ?thesis
  proof (cases "lookup_citation e k")
    case (Inl err)
    with None assms show ?thesis by (simp add: qlc_miss_fail cache_ok_def)
  next
    case (Inr v)
    have d: "distinct (map fst ((k, v) # cache st))"
      using assms fresh by (simp add: cache_ok_def)
    have "distinct (map fst (take maxsize ((k, v) # cache st)))"
      using d unfolding take_map[symmetric] by (rule distinct_take)
    moreover have "\<forall>kv \<in> set (take maxsize ((k, v) # cache st)). lookup_citation e (fst kv) = Inr (snd kv)"
    proof
      fix kv assume "kv \<in> set (take maxsize ((k, v) # cache st))"
      then have "kv \<in> set ((k, v) # cache st)" by (rule in_set_takeD)
      with assms Inr show "lookup_citation e (fst kv) = Inr (snd kv)"
        by (auto simp: cache_ok_def)
    qed
    ultimately show ?thesis
      using None Inr by (simp add: qlc_miss_ok cache_ok_def)
  qed
next
  case (Some v)
  then have mem: "(k, v) \<in> set (cache st)" by (rule map_of_SomeD)
  have "length (filter (\<lambda>kv. fst kv \<noteq> k) (cache st)) < length (cache st)"
    using mem by (intro length_filter_less[of "(k, v)"]) simp_all
  moreover have "distinct (map fst (filter (\<lambda>kv. fst kv \<noteq> k) (cache st)))"
    using assms by (simp add: cache_ok_def distinct_map_filter)
  moreover have "lookup_citation e k = Inr v"
    using assms Some by (rule cached_is_lookup)
  ultimately show ?thesis
    using assms Some by (auto simp: qlc_hit cache_ok_def)
qed

lemma call_all_cache_ok: "cache_ok e st \<Longrightarrow> cache_ok e (call_all e st ks)"
  by (induction ks arbitrary: st) (simp_all add: qlc_cache_ok)

lemma maxsize_pos: "0 < maxsize"
  by (simp add: maxsize_def)

lemma qlc_front:
  assumes "cache_ok e st" and "lookup_citation e k = Inr v"
  shows "\<exists>rest. cache (snd (query_legal_citation e st k)) = (k, v) # rest"
proof (cases "map_of (cache st) k")
  case None
  with assms(2) maxsize_pos show ?thesis by (simp add: qlc_miss_ok take_Cons')
next
  case (Some w)
  with assms have "w = v" using cached_is_lookup by fastforce
  with Some show ?thesis by (simp add: qlc_hit)
qed

lemma qlc_distinct:
  assumes "distinct (map fst (cache st))"
  shows "distinct (map fst (cache (snd (query_legal_citation e st k))))"
proof (cases "map_of (cache st) k")
  case None
  then have fresh: "k \<notin> fst ` set (cache st)" by (simp add: map_of_eq_None_iff)
  show ?thesis
  proof (cases "lookup_citation e k")
    case (Inl err)
    with None assms show ?thesis by (simp add: qlc_miss_fail)
  next
    case (Inr v)
    have "distinct (map fst ((k, v) # cache st))" using assms fresh by simp
    then have "distinct (map fst (take maxsize ((k, v) # cache st)))"
      unfolding take_map[symmetric] by (rule distinct_take)
    with None Inr show ?thesis by (simp add: qlc_miss_ok)
  qed
next
  case (Some v)
  with assms show ?thesis by (auto simp: qlc_hit distinct_map_filter)
qed

lemma qlc_keeps:
  assumes S_fin: "finite S" and S_small: "card S < maxsize" and k_out: "k \<notin> S"
    and k': "k' \<in> S"
    and dist: "distinct (map fst (cache st))"
    and c_split: "cache st = front @ (k, v) # rest"
    and front_sub: "fst ` set front \<subseteq> S"
  shows "\<exists>front' rest'. cache (snd (query_legal_citation e st k')) = front' @ (k, v) # rest' \<and>
           fst ` set front' \<subseteq> S"
proof (cases "map_of (cache st) k'")
  case (Some v')
  have "k \<noteq> k'" using k_out k' by auto
  then have "cache (snd (query_legal_citation e st k')) =
      ((k', v') # filter (\<lambda>kv. fst kv \<noteq> k') front) @ (k, v) # filter (\<lambda>kv. fst kv \<noteq> k') rest"
    using Some c_split by (simp add: qlc_hit)
  moreover have "fst ` set ((k', v') # filter (\<lambda>kv. fst kv \<noteq> k') front) \<subseteq> S"
    using front_sub k' by auto
  ultimately show ?thesis by blast
next
  case None
  show ?thesis
  proof (cases "lookup_citation e k'")
    case (Inl err)
    with None c_split front_sub show ?thesis by (auto simp: qlc_miss_fail)
  next
    case (Inr v')
    have fresh: "k' \<notin> fst ` set (cache st)" using None by (simp add: map_of_eq_None_iff)
    let ?front = "(k', v') # front"
    have sub: "fst ` set ?front \<subseteq> S" using front_sub k' by auto
    have "distinct (map fst ?front)" using dist fresh c_split by auto
    then have "length ?front = card (fst ` set ?front)"
      using distinct_card[of "map fst ?front"] by simp
    also have "\<dots> \<le> card S" using sub S_fin by (rule card_mono[rotated])
    finally have len: "length ?front < maxsize" using S_small by simp
    have "take maxsize (?front @ (k, v) # rest) =
            ?front @ (k, v) # take (maxsize - Suc (length ?front)) rest"
      using len by (simp add: take_Cons' )
    then have "cache (snd (query_legal_citation e st k')) =
                 ?front @ (k, v) # take (maxsize - Suc (length ?front)) rest"
      using None Inr c_split by (simp add: qlc_miss_ok)
    with sub show ?thesis by blast
  qed
qed

lemma call_all_keeps:
  assumes S_fin: "finite S" and S_small: "card S < maxsize" and k_out: "k \<notin> S"
  shows "set ks \<subseteq> S \<Longrightarrow> distinct (map fst (cache st)) \<Longrightarrow>
         cache st = front @ (k, v) # rest \<Longrightarrow> fst ` set front \<subseteq> S \<Longrightarrow>
         map_of (cache (call_all e st ks)) k = Some v"
proof (induction ks arbitrary: st front rest)
  case Nil
  then have "k \<notin> fst ` set front" using k_out by auto
  then have "map_of front k = None" by (simp add: map_of_eq_None_iff)
  with Nil show ?case by (simp add: map_add_def)
next
  case (Cons k' ks)
  from Cons.prems have k': "k' \<in> S" by simp
  obtain front' rest' where
    "cache (snd (query_legal_citation e st k')) = front' @ (k, v) # rest'" "fst ` set front' \<subseteq> S"
    using qlc_keeps[OF S_fin S_small k_out k' Cons.prems(2) Cons.prems(3) Cons.prems(4)] by blast
  moreover have "distinct (map fst (cache (snd (query_legal_citation e st k'))))"
    using Cons.prems(2) by (rule qlc_distinct)
  moreover have "set ks \<subseteq> S" using Cons.prems(1) by simp
  ultimately show ?case
    using Cons.IH by simp
qed

lemma second_call_hit:
  assumes ok: "cache_ok e st" and res: "lookup_citation e k = Inr v"
    and k_out: "k \<notin> set ks" and S_small: "card (set ks) < maxsize"
  shows "query_legal_citation e (call_all e (snd (query_legal_citation e st k)) ks) k =
           (Inr v, (call_all e (snd (query_legal_citation e st k)) ks)
                     \<lparr>cache := (k, v) # filter (\<lambda>kv. fst kv \<noteq> k)
                        (cache (call_all e (snd (query_legal_citation e st k)) ks))\<rparr>)"
proof -
  let ?st1 = "snd (query_legal_citation e st k)"
  obtain rest where c1: "cache ?st1 = [] @ (k, v) # rest"
    using qlc_front[OF ok res] by auto
  have "cache_ok e ?st1" using ok by (rule qlc_cache_ok)
  then have d1: "distinct (map fst (cache ?st1))" by (simp add: cache_ok_def)
  have "map_of (cache (call_all e ?st1 ks)) k = Some v"
    by (rule call_all_keeps[OF _ S_small k_out _ d1 c1]) simp_all
  then show ?thesis by (rule qlc_hit)
qed

lemma take_append_take: "take m (xs @ take m ys) = take m (xs @ ys)"
  by (simp add: min_def)

lemma call_all_fresh:
  assumes res: "\<And>k. lookup_citation e k = Inr (f k)"
  shows "distinct ks \<Longrightarrow> set ks \<inter> fst ` set (cache st) = {} \<Longrightarrow>
         length (cache st) \<le> maxsize \<Longrightarrow>
         cache (call_all e st ks) = take maxsize (rev (map (\<lambda>k. (k, f k)) ks) @ cache st)"
proof (induction ks arbitrary: st)
  case Nil
  then show ?case by simp
next
  case (Cons k ks)
  then have "k \<notin> fst ` set (cache st)" by auto
  then have miss: "map_of (cache st) k = None" by (simp add: map_of_eq_None_iff)
  let ?st' = "snd (query_legal_citation e st k)"
  have c': "cache ?st' = take maxsize ((k, f k) # cache st)"
    using miss res by (simp add: qlc_miss_ok)
  have "fst ` set (take maxsize ((k, f k) # cache st)) \<subseteq> insert k (fst ` set (cache st))"
    using set_take_subset[of maxsize "(k, f k) # cache st"] by auto
  with Cons.prems c' have "set ks \<inter> fst ` set (cache ?st') = {}" by auto
  moreover have "distinct ks" using Cons.prems by simp
  ultimately have "distinct ks" "set ks \<inter> fst ` set (cache ?st') = {}" by simp_all
  moreover have "length (cache ?st') \<le> maxsize" by (simp add: c')
  ultimately have "cache (call_all e ?st' ks) =
      take maxsize (rev (map (\<lambda>k. (k, f k)) ks) @ cache ?st')"
    by (rule Cons.IH)
  then show ?case by (simp add: c' take_append_take)
qed

lemma lookup_empty_store: "lookup_citation empty_store k = Inr []"
  by (simp add: lookup_citation_def empty_store_def)

lemma other_keys_distinct: "distinct other_keys"
proof -
  have "inj other_key"
  proof (rule injI)
    fix m n assume "other_key m = other_key n"
    then have "length (other_key m) = length (other_key n)" by simp
    then show "m = n" by (simp add: other_key_def)
  qed
  then have "inj_on other_key (set [1..<Suc maxsize])" by (rule inj_on_subset) simp
  then show ?thesis
    unfolding other_keys_def by (simp only: distinct_map distinct_upt simp_thms)
qed

lemma nja_not_other: "''NJA 2019 s. 45'' \<notin> set other_keys"
proof
  assume "''NJA 2019 s. 45'' \<in> set other_keys"
  then obtain n where "''NJA 2019 s. 45'' = replicate n (CHR ''x'')"
    by (auto simp: other_keys_def other_key_def)
  then have "CHR ''N'' \<in> set (replicate n (CHR ''x''))"
    by (metis list.set_intros(1))
  then show False by simp
qed

lemma full_state_cache: "cache full_state = rev (map (\<lambda>k. (k, [])) other_keys)"
proof -
  let ?st1 = "snd (query_legal_citation empty_store init_state ''NJA 2019 s. 45'')"
  have c1: "cache ?st1 = [(''NJA 2019 s. 45'', [])]"
    using maxsize_pos
    by (simp add: qlc_miss_ok[OF _ lookup_empty_store] init_state_def take_Cons')
  have "cache (call_all empty_store ?st1 other_keys) =
          take maxsize (rev (map (\<lambda>k. (k, [])) other_keys) @ cache ?st1)"
  proof (rule call_all_fresh)
    show "lookup_citation empty_store k = Inr []" for k by (rule lookup_empty_store)
    show "distinct other_keys" by (rule other_keys_distinct)
    show "set other_keys \<inter> fst ` set (cache ?st1) = {}"
      using nja_not_other by (simp add: c1)
    show "length (cache ?st1) \<le> maxsize" using maxsize_pos by (simp add: c1)
  qed
  moreover have "length other_keys = maxsize" by (simp add: other_keys_def)
  ultimately show ?thesis by (simp add: full_state_def)
qed

lemma full_state_miss: "map_of (cache full_state) ''NJA 2019 s. 45'' = None"
proof -
  have "fst ` set (cache full_state) = set other_keys"
    by (simp add: full_state_cache image_image)
  with nja_not_other show ?thesis by (simp only: map_of_eq_None_iff not_False_eq_True)
qed

lemma full_state_length: "length (cache full_state) = maxsize"
  by (simp add: full_state_cache other_keys_def)

lemma full_state_ok: "cache_ok empty_store full_state"
  unfolding full_state_def
  by (rule call_all_cache_ok, rule qlc_cache_ok, rule cache_ok_init)

lemma full_state_hit: "map_of (cache full_state) (other_key 1) = Some []"
proof -
  have "1 \<in> set [1..<Suc maxsize]" using maxsize_pos by auto
  then have "other_key 1 \<in> other_key ` set [1..<Suc maxsize]" by (rule imageI)
  then have "other_key 1 \<in> set other_keys" by (simp only: other_keys_def set_map)
  then have "other_key 1 \<in> fst ` set (cache full_state)"
    by (simp add: full_state_cache image_image)
  then obtain v where v: "map_of (cache full_state) (other_key 1) = Some v"
    by (cases "map_of (cache full_state) (other_key 1)") (simp_all add: map_of_eq_None_iff)
  then have "(other_key 1, v) \<in> set (cache full_state)" by (rule map_of_SomeD)
  then have "v = []" by (auto simp: full_state_cache)
  with v show ?thesis by simp
qed

lemma first_call_queries:
  "queries (snd (query_legal_citation empty_store init_state ''NJA 2019 s. 45'')) =
     [citation_query ''NJA 2019 s. 45'']"
proof -
  have "map_of (cache init_state) ''NJA 2019 s. 45'' = None" by (simp add: init_state_def)
  then have "query_legal_citation empty_store init_state ''NJA 2019 s. 45'' =
     (Inr [], init_state\<lparr>queries := queries init_state @ [citation_query ''NJA 2019 s. 45''],
               cache := take maxsize ((''NJA 2019 s. 45'', []) # cache init_state)\<rparr>)"
    using lookup_empty_store by (rule qlc_miss_ok)
  then show ?thesis by (simp add: init_state_def)
qed

text \<open>
  Two calls with the same key can send two queries: the first call for
  \<open>NJA 2019 s. 45\<close> sends one; after \<open>maxsize\<close> other keys have been looked up
  (\<open>full_state\<close>) the entry has been dropped, and the next call for the key sends
  the query again.
\<close>

theorem second_lookup_after_eviction_counterexample:
  "queries (snd (query_legal_citation empty_store init_state ''NJA 2019 s. 45'')) =
     [citation_query ''NJA 2019 s. 45''] \<and>
   queries (snd (query_legal_citation empty_store full_state ''NJA 2019 s. 45'')) =
     queries full_state @ [citation_query ''NJA 2019 s. 45'']"
proof -
  have "query_legal_citation empty_store full_state ''NJA 2019 s. 45'' =
     (Inr [], full_state\<lparr>queries := queries full_state @ [citation_query ''NJA 2019 s. 45''],
               cache := take maxsize ((''NJA 2019 s. 45'', []) # cache full_state)\<rparr>)"
    using full_state_miss lookup_empty_store by (rule qlc_miss_ok)
  then have "queries (snd (query_legal_citation empty_store full_state ''NJA 2019 s. 45'')) =
     queries full_state @ [citation_query ''NJA 2019 s. 45'']"
    by simp
  with first_call_queries show ?thesis by (rule conjI)
qed

lemma qlc_evicts:
  assumes "map_of (cache st) k = None" and "lookup_citation e k = Inr v"
    and "length (cache st) = maxsize"
  shows "cache (snd (query_legal_citation e st k)) = (k, v) # butlast (cache st)"
proof -
  have "take maxsize ((k, v) # cache st) = (k, v) # take (maxsize - 1) (cache st)"
    using maxsize_pos by (simp add: take_Cons')
  also have "take (maxsize - 1) (cache st) = butlast (cache st)"
    using assms(3) by (simp add: butlast_conv_take)
  finally show ?thesis using assms(1,2) by (simp add: qlc_miss_ok)
qed

text \<open>
  Claim C3, as the code has it. In a state whose cache is as \<open>cache_ok\<close> says
  (the initial state is, and every call keeps it so):
  the memoized function returns what its body returns for the key, a list or a
  failure; after a call for a key has returned, and as long as fewer than
  \<open>maxsize\<close> different other keys have been looked up since, the next call for the
  key returns the same list and sends no query; a hit makes the key's entry the
  most recently used; a miss that returns while the cache holds \<open>maxsize\<close>
  entries drops the last entry, the least recently used, and puts the new one
  first.
\<close>

theorem memoized_lookup:
  assumes "cache_ok e st"
  shows
    "fst (query_legal_citation e st k) = lookup_citation e k \<and>
     cache_ok e (snd (query_legal_citation e st k)) \<and>
     (lookup_citation e k = Inr v \<and> k \<notin> set ks \<and> card (set ks) < maxsize \<longrightarrow>
        fst (query_legal_citation e (call_all e (snd (query_legal_citation e st k)) ks) k) = Inr v \<and>
        queries (snd (query_legal_citation e (call_all e (snd (query_legal_citation e st k)) ks) k)) =
          queries (call_all e (snd (query_legal_citation e st k)) ks)) \<and>
     (map_of (cache st) k = Some v \<longrightarrow>
        query_legal_citation e st k =
          (Inr v, st\<lparr>cache := (k, v) # filter (\<lambda>kv. fst kv \<noteq> k) (cache st)\<rparr>)) \<and>
     (map_of (cache st) k = None \<and> lookup_citation e k = Inr v \<and> length (cache st) = maxsize \<longrightarrow>
        cache (snd (query_legal_citation e st k)) = (k, v) # butlast (cache st))"
proof (intro conjI impI)
  show "fst (query_legal_citation e st k) = lookup_citation e k"
    using assms by (rule qlc_result)
  show "cache_ok e (snd (query_legal_citation e st k))"
    using assms by (rule qlc_cache_ok)
next
  assume h: "lookup_citation e k = Inr v \<and> k \<notin> set ks \<and> card (set ks) < maxsize"
  let ?st2 = "call_all e (snd (query_legal_citation e st k)) ks"
  have hit: "query_legal_citation e ?st2 k =
      (Inr v, ?st2\<lparr>cache := (k, v) # filter (\<lambda>kv. fst kv \<noteq> k) (cache ?st2)\<rparr>)"
    using assms h by (intro second_call_hit) simp_all
  show "fst (query_legal_citation e ?st2 k) = Inr v" by (simp add: hit)
  show "queries (snd (query_legal_citation e ?st2 k)) = queries ?st2" by (simp add: hit)
next
  assume "map_of (cache st) k = Some v"
  then show "query_legal_citation e st k =
      (Inr v, st\<lparr>cache := (k, v) # filter (\<lambda>kv. fst kv \<noteq> k) (cache st)\<rparr>)"
    by (rule qlc_hit)
next
  assume "map_of (cache st) k = None \<and> lookup_citation e k = Inr v \<and> length (cache st) = maxsize"
  then show "cache (snd (query_legal_citation e st k)) = (k, v) # butlast (cache st)"
    by (intro qlc_evicts) simp_all
qed

theorem memoized_lookup_witness:
  "cache_ok empty_store full_state \<and>
   fst (query_legal_citation empty_store full_state ''NJA 2019 s. 45'') =
     lookup_citation empty_store ''NJA 2019 s. 45'' \<and>
   lookup_citation empty_store ''NJA 2019 s. 45'' = Inr [] \<and>
   ''NJA 2019 s. 45'' \<notin> set [''SOU 2001:3''] \<and>
   card (set [''SOU 2001:3'']) < maxsize \<and>
   fst (query_legal_citation empty_store
          (call_all empty_store
             (snd (query_legal_citation empty_store full_state ''NJA 2019 s. 45'')) [''SOU 2001:3''])
          ''NJA 2019 s. 45'') = Inr [] \<and>
   map_of (cache full_state) ''NJA 2019 s. 45'' = None \<and>
   length (cache full_state) = maxsize \<and>
   cache (snd (query_legal_citation empty_store full_state ''NJA 2019 s. 45'')) =
     (''NJA 2019 s. 45'', []) # butlast (cache full_state) \<and>
   map_of (cache full_state) (other_key 1) = Some [] \<and>
   query_legal_citation empty_store full_state (other_key 1) =
     (Inr [], full_state\<lparr>cache := (other_key 1, []) #
        filter (\<lambda>kv. fst kv \<noteq> other_key 1) (cache full_state)\<rparr>)"
proof -
  note hit = memoized_lookup[OF full_state_ok, of "other_key 1" "[]" "[]"]
  note inst = memoized_lookup[OF full_state_ok, of "''NJA 2019 s. 45''" "[]" "[''SOU 2001:3'']"]
  have h1: "lookup_citation empty_store ''NJA 2019 s. 45'' = Inr []"
    by (rule lookup_empty_store)
  have h2: "''NJA 2019 s. 45'' \<notin> set [''SOU 2001:3'']" by simp
  have h3: "card (set [''SOU 2001:3'']) < maxsize" by (simp add: maxsize_def)
  show ?thesis
    using inst hit h1 h2 h3 full_state_ok full_state_miss full_state_length full_state_hit
    by blast
qed

section \<open>The loop over the keys, the write and the run\<close>

lemma qlc_other_fields:
  "written (snd (query_legal_citation e st k)) = written st \<and>
   printed (snd (query_legal_citation e st k)) = printed st \<and>
   ref_date (snd (query_legal_citation e st k)) = ref_date st"
  by (simp add: query_legal_citation_def Let_def split: option.splits sum.splits)

lemma print_fields:
  "written (print l st) = written st \<and> cache (print l st) = cache st \<and>
   queries (print l st) = queries st \<and> ref_date (print l st) = ref_date st \<and>
   printed (print l st) = printed st @ [l]"
  by (simp add: print_def)

lemma cache_ok_print: "cache_ok e (print l st) = cache_ok e st"
  by (simp add: cache_ok_def print_def)

lemma resolve_loop_step:
  assumes "cache_ok e st"
  shows "resolve_loop e r item refs ((k, ps) # rest) (st, stmts) =
     (case lookup_citation e k of
        Inl err \<Rightarrow> (Raised err, snd (query_legal_citation e st k), stmts)
      | Inr targets \<Rightarrow>
          if length targets = 1 \<and> \<not> item_id_ok e (hd targets)
          then (Raised ValueError, snd (query_legal_citation e st k), stmts)
          else
            resolve_loop e r item refs rest
              (if targets = [] then print (no_item_line item k) (snd (query_legal_citation e st k))
               else if 1 < length targets
                 then print (multiple_items_line r item k) (snd (query_legal_citation e st k))
               else snd (query_legal_citation e st k),
               stmts @ links_for e refs (k, ps)))"
proof -
  obtain res st1 where q: "query_legal_citation e st k = (res, st1)"
    by (cases "query_legal_citation e st k")
  then have "res = lookup_citation e k"
    using qlc_result[OF assms, of k] by simp
  with q show ?thesis
    by (cases "lookup_citation e k"; cases "projr (lookup_citation e k)";
        cases "tl (projr (lookup_citation e k))")
       (simp_all add: WDItemID_def set_qualifiers_def cites_def)
qed

lemma cache_ok_cong:
  "cache st' = cache st \<Longrightarrow> cache_ok e st' = cache_ok e st"
  by (simp add: cache_ok_def)

lemma resolve_loop_all:
  "cache_ok e st \<Longrightarrow> list_all (resolves e) cits \<Longrightarrow>
   \<exists>st'. resolve_loop e r item refs cits (st, stmts) =
           (Done, st', stmts @ concat (map (links_for e refs) cits)) \<and>
         cache_ok e st' \<and> written st' = written st"
proof (induction cits arbitrary: st stmts)
  case Nil
  then show ?case by simp
next
  case (Cons kp cits)
  obtain k ps where kp: "kp = (k, ps)" by (cases kp)
  from Cons.prems kp obtain targets where res: "lookup_citation e k = Inr targets"
    and good: "length targets = 1 \<longrightarrow> item_id_ok e (hd targets)"
    by (cases "lookup_citation e k") (simp_all add: resolves_def)
  let ?st1 = "snd (query_legal_citation e st k)"
  let ?st2 = "if targets = [] then print (no_item_line item k) ?st1
              else if 1 < length targets then print (multiple_items_line r item k) ?st1
              else ?st1"
  have ok1: "cache_ok e ?st1" using Cons.prems(1) by (rule qlc_cache_ok)
  then have ok2: "cache_ok e ?st2" by (simp add: cache_ok_print)
  have w2: "written ?st2 = written st" by (simp add: print_fields qlc_other_fields)
  have rest: "list_all (resolves e) cits" using Cons.prems(2) by simp
  obtain st' where
    "resolve_loop e r item refs cits (?st2, stmts @ links_for e refs (k, ps)) =
       (Done, st', (stmts @ links_for e refs (k, ps)) @ concat (map (links_for e refs) cits))"
    "cache_ok e st'" "written st' = written ?st2"
    using Cons.IH[OF ok2 rest] by blast
  then show ?case
    unfolding kp resolve_loop_step[OF Cons.prems(1)] using res good w2
    by (simp del: links_for.simps)
qed

lemma resolve_loop_append:
  "resolve_loop e r item refs (pre @ post) (st, stmts) =
     (case resolve_loop e r item refs pre (st, stmts) of
        (Done, st', stmts') \<Rightarrow> resolve_loop e r item refs post (st', stmts')
      | (Raised err, st', stmts') \<Rightarrow> (Raised err, st', stmts'))"
proof (induction pre arbitrary: st stmts)
  case Nil
  show ?case by simp
next
  case (Cons kp pre)
  obtain k ps where kp: "kp = (k, ps)" by (cases kp)
  obtain res st1 where q: "query_legal_citation e st k = (res, st1)"
    by (cases "query_legal_citation e st k")
  show ?case
    unfolding kp append_Cons resolve_loop.simps q
    by (cases res) (simp_all add: Cons.IH split: sum.splits)
qed

lemma resolve_loop_fails:
  assumes ok: "cache_ok e st" and pre: "list_all (resolves e) pre"
    and err: "lookup_citation e k = Inl err"
  shows "\<exists>st' stmts'. resolve_loop e r item refs pre (st, stmts) = (Done, st', stmts') \<and>
           resolve_loop e r item refs (pre @ (k, ps) # post) (st, stmts) =
             (Raised err, st'\<lparr>queries := queries st' @ [citation_query k]\<rparr>, stmts') \<and>
           written st' = written st"
proof -
  obtain st' where
    pre_run: "resolve_loop e r item refs pre (st, stmts) =
       (Done, st', stmts @ concat (map (links_for e refs) pre))"
    and ok': "cache_ok e st'" and w: "written st' = written st"
    using resolve_loop_all[OF ok pre] by blast
  have "map_of (cache st') k = None"
  proof (cases "map_of (cache st') k")
    case (Some v)
    with ok' have "lookup_citation e k = Inr v" by (rule cached_is_lookup)
    with err show ?thesis by simp
  qed simp
  then have "query_legal_citation e st' k =
      (Inl err, st'\<lparr>queries := queries st' @ [citation_query k]\<rparr>)"
    using err by (rule qlc_miss_fail)
  then show ?thesis
    using pre_run w by (simp add: resolve_loop_append)
qed

lemma resolve_loop_rejects:
  assumes ok: "cache_ok e st" and pre: "list_all (resolves e) pre"
    and one: "lookup_citation e k = Inr [tgt]" and bad: "\<not> item_id_ok e tgt"
  shows "\<exists>st'. resolve_loop e r item refs (pre @ (k, ps) # post) (st, stmts) =
           (Raised ValueError, st', stmts @ concat (map (links_for e refs) pre))"
proof -
  obtain st' where
    pre_run: "resolve_loop e r item refs pre (st, stmts) =
       (Done, st', stmts @ concat (map (links_for e refs) pre))"
    and ok': "cache_ok e st'"
    using resolve_loop_all[OF ok pre] by blast
  have "resolve_loop e r item refs ((k, ps) # post)
          (st', stmts @ concat (map (links_for e refs) pre)) =
        (Raised ValueError, snd (query_legal_citation e st' k),
         stmts @ concat (map (links_for e refs) pre))"
    unfolding resolve_loop_step[OF ok'] using one bad by simp
  then show ?thesis
    using pre_run by (simp add: resolve_loop_append)
qed

text \<open>
  Claim C6 at a failing input. The lookup of \<open>NJA 2019 s. 45\<close> gives the two
  candidates Q1 and Q2. No link is built, and the line printed for the citation
  lists Q100 and Q200, the items of the rows of the discovery query, where the
  claim has the candidates Q1 and Q2.
\<close>

theorem ambiguity_line_lists_discovery_rows:
  "lookup_citation (world ''NJA 2019 s. 45'' two_items None) ''NJA 2019 s. 45'' = Inr [''Q1'', ''Q2''] \<and>
   process_decision (world ''NJA 2019 s. 45'' two_items None) [decision_a, decision_b] init_state decision_a =
     (Done,
      \<lparr>printed = [''Item Q100: Found multiple items with legal citation NJA 2019 s. 45: Q100, Q200.''],
       ref_date = Some ''2020-03-02T00:00:00Z'',
       cache = [(''NJA 2019 s. 45'', [''Q1'', ''Q2''])],
       queries = [citation_query ''NJA 2019 s. 45''],
       written = []\<rparr>)"
  by code_simp

text \<open>
  Claim C1, as the code has it. In the loop over the aggregated keys of a
  decision, as long as the lookups return and every candidate that stands alone
  is an identifier that the constructor of the statement accepts, the statements
  built are, key after key, none for a key with no candidate or with more than
  one, and for a key with exactly one candidate one statement whose target is
  the candidate and whose qualifiers are the pages of the key (\<open>links_for\<close>). At
  the first key whose only candidate the constructor rejects, \<open>ValueError\<close> is
  raised and leaves the loop: no statement is built for that key or for the keys
  after it.
\<close>

theorem resolve_loop_links:
  assumes "cache_ok e st" and "list_all (resolves e) pre"
  shows "fst (resolve_loop e r item refs pre (st, [])) = Done \<and>
         snd (snd (resolve_loop e r item refs pre (st, []))) = concat (map (links_for e refs) pre) \<and>
         (lookup_citation e k = Inr [tgt] \<longrightarrow> \<not> item_id_ok e tgt \<longrightarrow>
            fst (resolve_loop e r item refs (pre @ (k, ps) # post) (st, [])) = Raised ValueError \<and>
            snd (snd (resolve_loop e r item refs (pre @ (k, ps) # post) (st, []))) =
              concat (map (links_for e refs) pre))"
proof -
  have "fst (resolve_loop e r item refs pre (st, [])) = Done \<and>
        snd (snd (resolve_loop e r item refs pre (st, []))) = concat (map (links_for e refs) pre)"
    using resolve_loop_all[OF assms, of r item refs "[]"] by auto
  moreover have
    "fst (resolve_loop e r item refs (pre @ (k, ps) # post) (st, [])) = Raised ValueError \<and>
     snd (snd (resolve_loop e r item refs (pre @ (k, ps) # post) (st, []))) =
       concat (map (links_for e refs) pre)"
    if "lookup_citation e k = Inr [tgt]" and "\<not> item_id_ok e tgt"
    using resolve_loop_rejects[OF assms that, of r item refs ps post "[]"] by auto
  ultimately show ?thesis by blast
qed

lemma mixed_lookups:
  "lookup_citation (world t mixed w) ''NJA 2019 s. 45'' = Inr []"
  "lookup_citation (world t mixed w) ''Prop. 2005/06:55'' = Inr [''Q123'']"
  "lookup_citation (world t mixed w) ''SOU 2001:3'' = Inr [''Q1'', ''Q2'']"
  "lookup_citation (world t mixed w) ''Mot. 2001/02:12'' = Inl TransportError"
  by (simp_all add: lookup_citation_def world_def mixed_def citation_query_def rpartition_tail_def)

lemma with_lexeme_lookups:
  "lookup_citation (world t with_lexeme w) ''NJA 2019 s. 45'' = Inr []"
  "lookup_citation (world t with_lexeme w) ''Prop. 2005/06:55'' = Inr [''Q123'']"
  "lookup_citation (world t with_lexeme w) ''SOU 2001:3'' = Inr [''L5'']"
  by (simp_all add: lookup_citation_def world_def with_lexeme_def mixed_def citation_query_def
        rpartition_tail_def)

lemma world_item_ids:
  "item_id_ok (world t a w) ''Q123''" "\<not> item_id_ok (world t a w) ''L5''"
  by (simp_all add: world_def q_number_def is_digit_def)

text \<open>
  The claim as it is worded has one link built whenever the lookup returns
  exactly one candidate. Here the only candidate for the report is the lexeme
  L5: the constructor of the statement raises \<open>ValueError\<close>, no link is built
  and the run ends, the second decision unprocessed.
\<close>

theorem sole_candidate_rejected_counterexample:
  "lookup_citation (world ''SOU 2001:3'' with_lexeme None) ''SOU 2001:3'' = Inr [''L5''] \<and>
   main (world ''SOU 2001:3'' with_lexeme None) [decision_a, decision_b] =
     (Raised ValueError,
      \<lparr>printed = [],
       ref_date = Some ''2020-03-02T00:00:00Z'',
       cache = [(''SOU 2001:3'', [''L5''])],
       queries = [citation_query ''SOU 2001:3''],
       written = []\<rparr>)"
  by code_simp

theorem resolve_loop_links_witness:
  "cache_ok (world [] with_lexeme None) init_state \<and>
   list_all (resolves (world [] with_lexeme None))
     [(''NJA 2019 s. 45'', {}), (''Prop. 2005/06:55'', {''12''})] \<and>
   lookup_citation (world [] with_lexeme None) ''SOU 2001:3'' = Inr [''L5''] \<and>
   \<not> item_id_ok (world [] with_lexeme None) ''L5'' \<and>
   fst (resolve_loop (world [] with_lexeme None) [decision_a] ''Q100''
          [[WDUrl ''https://example.org/a.pdf'' ''P854'']]
          [(''NJA 2019 s. 45'', {}), (''Prop. 2005/06:55'', {''12''})]
          (init_state, [])) = Done \<and>
   snd (snd (resolve_loop (world [] with_lexeme None) [decision_a] ''Q100''
          [[WDUrl ''https://example.org/a.pdf'' ''P854'']]
          [(''NJA 2019 s. 45'', {}), (''Prop. 2005/06:55'', {''12''})]
          (init_state, []))) =
     [\<lparr>target = ''Q123'', prop_nr = ''P2860'',
       references = [[WDUrl ''https://example.org/a.pdf'' ''P854'']],
       qualifiers = {WDString ''12'' ''P304''}\<rparr>] \<and>
   fst (resolve_loop (world [] with_lexeme None) [decision_a] ''Q100''
          [[WDUrl ''https://example.org/a.pdf'' ''P854'']]
          ([(''NJA 2019 s. 45'', {}), (''Prop. 2005/06:55'', {''12''})] @
           (''SOU 2001:3'', {}) # [(''Mot. 2001/02:12'', {})])
          (init_state, [])) = Raised ValueError \<and>
   snd (snd (resolve_loop (world [] with_lexeme None) [decision_a] ''Q100''
          [[WDUrl ''https://example.org/a.pdf'' ''P854'']]
          ([(''NJA 2019 s. 45'', {}), (''Prop. 2005/06:55'', {''12''})] @
           (''SOU 2001:3'', {}) # [(''Mot. 2001/02:12'', {})])
          (init_state, []))) =
     [\<lparr>target = ''Q123'', prop_nr = ''P2860'',
       references = [[WDUrl ''https://example.org/a.pdf'' ''P854'']],
       qualifiers = {WDString ''12'' ''P304''}\<rparr>]"
proof -
  let ?W = "world [] with_lexeme None"
  let ?pre = "[(''NJA 2019 s. 45'', {}), (''Prop. 2005/06:55'', {''12''})]"
  let ?refs = "[[WDUrl ''https://example.org/a.pdf'' ''P854'']]"
  have ok: "cache_ok ?W init_state" by (rule cache_ok_init)
  have all: "list_all (resolves ?W) ?pre"
    by (simp add: resolves_def with_lexeme_lookups world_item_ids)
  have one: "lookup_citation ?W ''SOU 2001:3'' = Inr [''L5'']" by (rule with_lexeme_lookups)
  have bad: "\<not> item_id_ok ?W ''L5''" by (rule world_item_ids)
  have links: "concat (map (links_for ?W ?refs) ?pre) =
     [\<lparr>target = ''Q123'', prop_nr = ''P2860'', references = ?refs,
       qualifiers = {WDString ''12'' ''P304''}\<rparr>]"
    by (simp add: with_lexeme_lookups cites_def PROPS_cites_def PROPS_page_def)
  show ?thesis
    using ok all one bad
      resolve_loop_links[OF ok all, of "[decision_a]" "''Q100''" ?refs "''SOU 2001:3''" "''L5''"
        "{}" "[(''Mot. 2001/02:12'', {})]"]
    unfolding links by blast
qed

text \<open>
  Claim C5, as the code has it. When the lookup fails for a key of a decision,
  after the loop has got past the keys before it, nothing catches the failure:
  the state is the one the earlier keys left, with the query that failed and
  nothing printed or written for the key, the statements built for the
  decision are not written, the failure leaves the processing of the decision
  and the run ends with it, whatever rows follow.
\<close>

theorem lookup_failure_ends_run:
  assumes "cache_ok e st"
    and "make_refs e st b = Inr (refs, st1)"
    and "requests_get e (b_url b) = Inr content"
    and "collect_citations e content = Inr (pre @ (k, ps) # post)"
    and "list_all (resolves e) pre"
    and "lookup_citation e k = Inl err"
  shows "\<exists>st2 stmts.
           resolve_loop e r (rpartition_tail (b_item b)) refs pre (st1, []) = (Done, st2, stmts) \<and>
           process_decision e r st b =
             (Raised err, st2\<lparr>queries := queries st2 @ [citation_query k]\<rparr>) \<and>
           run e r (b # bs) st =
             (Raised err, st2\<lparr>queries := queries st2 @ [citation_query k]\<rparr>) \<and>
           written st2 = written st"
proof -
  have c1: "cache st1 = cache st" and w1: "written st1 = written st"
    using assms(2) by (auto simp: make_refs_def split: option.splits)
  have ok1: "cache_ok e st1" using assms(1) cache_ok_cong[OF c1, of e] by simp
  obtain st2 stmts where
    a: "resolve_loop e r (rpartition_tail (b_item b)) refs pre (st1, []) = (Done, st2, stmts)"
    and b: "resolve_loop e r (rpartition_tail (b_item b)) refs (pre @ (k, ps) # post) (st1, []) =
             (Raised err, st2\<lparr>queries := queries st2 @ [citation_query k]\<rparr>, stmts)"
    and c: "written st2 = written st1"
    using resolve_loop_fails[OF ok1 assms(5) assms(6)] by blast
  have d: "process_decision e r st b =
      (Raised err, st2\<lparr>queries := queries st2 @ [citation_query k]\<rparr>)"
    using assms(2,3,4) b by (simp add: process_decision_def)
  then have "run e r (b # bs) st =
      (Raised err, st2\<lparr>queries := queries st2 @ [citation_query k]\<rparr>)"
    by simp
  with a d c w1 show ?thesis by simp
qed



text \<open>
  The claim as it is worded has the failure of a lookup logged and only that
  citation skipped: here the lookup of the second citation fails and the run
  ends with the failure, the second decision unprocessed.
\<close>

theorem lookup_failure_escapes_counterexample:
  "run (world ''NJA 2019 s. 45, Mot. 2001/02:12'' mixed None) [decision_a, decision_b]
     [decision_a, decision_b] init_state =
     (Raised TransportError,
      \<lparr>printed = [''Item Q100: Found no item with legal citation NJA 2019 s. 45.''],
       ref_date = Some ''2020-03-02T00:00:00Z'',
       cache = [(''NJA 2019 s. 45'', [])],
       queries = [citation_query ''NJA 2019 s. 45'', citation_query ''Mot. 2001/02:12''],
       written = []\<rparr>)"
  by code_simp

theorem lookup_failure_ends_run_witness:
  "cache_ok (world ''NJA 2019 s. 45, Mot. 2001/02:12'' mixed None) init_state \<and>
   list_all (resolves (world ''NJA 2019 s. 45, Mot. 2001/02:12'' mixed None)) [(''NJA 2019 s. 45'', {})] \<and>
   lookup_citation (world ''NJA 2019 s. 45, Mot. 2001/02:12'' mixed None) ''Mot. 2001/02:12'' =
     Inl TransportError \<and>
   fst (run (world ''NJA 2019 s. 45, Mot. 2001/02:12'' mixed None) [decision_a, decision_b]
          [decision_a, decision_b] init_state) = Raised TransportError \<and>
   written (snd (run (world ''NJA 2019 s. 45, Mot. 2001/02:12'' mixed None) [decision_a, decision_b]
          [decision_a, decision_b] init_state)) = []"
proof -
  let ?W = "world ''NJA 2019 s. 45, Mot. 2001/02:12'' mixed None"
  let ?refs = "[[WDUrl ''https://example.org/a.pdf'' ''P854'',
                 WDMonolingualText ''T 1234-19'' ''P1476'' ''sv'',
                 WDTime ''+2020-03-02T00:00:00Z'' ''P577'',
                 WDTime ''+2026-11-04T00:00:00Z'' ''P813'']]"
  let ?st1 = "init_state\<lparr>ref_date := Some ''2020-03-02T00:00:00Z''\<rparr>"
  have ok: "cache_ok ?W init_state" by (rule cache_ok_init)
  have refs: "make_refs ?W init_state decision_a = Inr (?refs, ?st1)" by code_simp
  have get: "requests_get ?W (b_url decision_a) = Inr ''%PDF-1.4''" by (simp add: world_def)
  have cits: "collect_citations ?W ''%PDF-1.4'' =
      Inr ([(''NJA 2019 s. 45'', {})] @ (''Mot. 2001/02:12'', {}) # [])" by code_simp
  have pre: "list_all (resolves ?W) [(''NJA 2019 s. 45'', {})]"
    by (simp add: resolves_def mixed_lookups)
  have err: "lookup_citation ?W ''Mot. 2001/02:12'' = Inl TransportError"
    by (rule mixed_lookups)
  obtain st2 where
    "run ?W [decision_a, decision_b] (decision_a # [decision_b]) init_state =
       (Raised TransportError, st2\<lparr>queries := queries st2 @ [citation_query ''Mot. 2001/02:12'']\<rparr>)"
    "written st2 = written init_state"
    using lookup_failure_ends_run[OF ok refs get cits pre err, of "[decision_a, decision_b]" "[decision_b]"]
    by blast
  then have "fst (run ?W [decision_a, decision_b] [decision_a, decision_b] init_state) =
        Raised TransportError"
    and "written (snd (run ?W [decision_a, decision_b] [decision_a, decision_b] init_state)) = []"
    by (simp_all add: init_state_def)
  with ok pre err show ?thesis by blast
qed



text \<open>
  Claim C4 at a failing input. A run whose first row has no title ends with a
  \<open>NameError\<close>: the handler reads \<open>ref_date\<close>, which the \<open>try\<close> block assigns
  only after it has read the title. After a row with a title has been processed,
  the reference built for a row without a title carries the date of that
  earlier row (2020-03-02) and not its own (2019-11-12).
\<close>

theorem untitled_decision_reads_unbound_ref_date:
  "main (world ''NJA 2019 s. 45'' one_item None) [decision_b, decision_a] =
     (Raised (NameError ''ref_date''), init_state) \<and>
   ref_date (snd (process_decision (world ''NJA 2019 s. 45'' one_item None) [decision_a, decision_b]
                    init_state decision_a)) = Some ''2020-03-02T00:00:00Z'' \<and>
   make_refs (world ''NJA 2019 s. 45'' one_item None)
       (init_state\<lparr>ref_date := Some ''2020-03-02T00:00:00Z''\<rparr>) decision_b =
     Inr ([[WDUrl ''https://example.org/b.pdf'' ''P854'',
            WDTime ''+2020-03-02T00:00:00Z'' ''P577'',
            WDTime ''+2026-11-04T00:00:00Z'' ''P813'']],
          init_state\<lparr>ref_date := Some ''2020-03-02T00:00:00Z''\<rparr>)"
  by code_simp

section \<open>The patterns and the case of their keywords\<close>

lemma star_ends_suffix: "rest \<in> set (star_ends a s) \<Longrightarrow> \<exists>m. s = m @ rest"
proof (induction s)
  case Nil
  then show ?case by simp
next
  case (Cons c cs)
  show ?case
  proof (cases "rest = c # cs")
    case True
    then show ?thesis by simp
  next
    case False
    with Cons.prems have "rest \<in> set (star_ends a cs)" by (simp split: if_splits)
    then obtain m where "cs = m @ rest" using Cons.IH by blast
    then have "c # cs = (c # m) @ rest" by simp
    then show ?thesis by blast
  qed
qed

lemma rep_ends_suffix: "rest \<in> set (rep_ends n a s) \<Longrightarrow> \<exists>m. s = m @ rest"
proof (induction n a s rule: rep_ends.induct)
  case (1 a s)
  then show ?case by simp
next
  case (2 n a)
  then show ?case by simp
next
  case (3 n a c cs)
  then have "accepts a c" and "rest \<in> set (rep_ends n a cs)" by (simp_all split: if_splits)
  then obtain m where "cs = m @ rest" using "3.IH" by blast
  then have "c # cs = (c # m) @ rest" by simp
  then show ?case by blast
qed

lemma matches_suffix:
  "(rest, g') \<in> set (matches r (s, g)) \<Longrightarrow> \<exists>m. s = m @ rest"
proof (induction r arbitrary: s g rest g')
  case Eps
  then show ?case by simp
next
  case (One a)
  then show ?case by (cases s) (simp_all split: if_splits)
next
  case (Seq r1 r2)
  from Seq.prems obtain mid gm where
    "(mid, gm) \<in> set (matches r1 (s, g))" "(rest, g') \<in> set (matches r2 (mid, gm))"
    by auto
  then obtain m1 m2 where "s = m1 @ mid" "mid = m2 @ rest"
    using Seq.IH by blast
  then have "s = (m1 @ m2) @ rest" by simp
  then show ?case by blast
next
  case (Alt r1 r2)
  then show ?case by auto
next
  case (Opt r)
  then show ?case by auto
next
  case (Star a)
  then show ?case by (auto dest: star_ends_suffix)
next
  case (Plus a)
  show ?case
  proof (cases s)
    case Nil
    with Plus show ?thesis by simp
  next
    case (Cons c cs)
    with Plus have "rest \<in> set (star_ends a cs)" by (auto split: if_splits)
    then obtain m where "cs = m @ rest" using star_ends_suffix by blast
    with Cons have "s = (c # m) @ rest" by simp
    then show ?thesis by blast
  qed
next
  case (Rep n a)
  then show ?case by (auto dest: rep_ends_suffix)
next
  case (Group i r)
  then show ?case by auto
qed

lemma lit_Cons: "lit (c # w) = Seq (One (Lit c)) (lit w)"
  by (simp add: lit_def)

lemma matches_lit:
  "matches (lit w) (s, g) = (if take (length w) s = w then [(drop (length w) s, g)] else [])"
proof (induction w arbitrary: s)
  case Nil
  show ?case by (simp add: lit_def)
next
  case (Cons c w)
  show ?case
  proof (cases s)
    case Nil
    then show ?thesis by (simp add: lit_Cons)
  next
    case (Cons d ds)
    then show ?thesis by (simp add: lit_Cons Cons.IH)
  qed
qed

lemma matches_lit_Seq:
  "matches (Seq (lit w) r) (s, g) =
     (if take (length w) s = w then matches r (drop (length w) s, g) else [])"
  by (simp add: matches_lit)

lemma seqs_Cons: "seqs (r # rs) = Seq r (seqs rs)"
  by (simp add: seqs_def)

lemma match_atD:
  assumes "match_at r t = Some m"
  shows "\<exists>rest g. (rest, g) \<in> set (matches r (t, Map.empty)) \<and>
           m = \<lparr>group0 = take (length t - length rest) t, groups = g\<rparr>"
proof (cases "matches r (t, Map.empty)")
  case Nil
  with assms show ?thesis by (simp add: match_at_def)
next
  case (Cons x xs)
  obtain rest g where x: "x = (rest, g)" by (cases x)
  with Cons have "(rest, g) \<in> set (matches r (t, Map.empty))" by simp
  moreover have "m = \<lparr>group0 = take (length t - length rest) t, groups = g\<rparr>"
    using assms Cons x by (simp add: match_at_def)
  ultimately show ?thesis by blast
qed

text \<open>A match of a pattern that begins with a word begins with the word.\<close>

lemma match_at_lit:
  assumes "match_at (Seq (lit w) r) t = Some m"
  shows "\<exists>u. group0 m = w @ u"
proof -
  from assms obtain rest g where
    hd: "(rest, g) \<in> set (matches (Seq (lit w) r) (t, Map.empty))"
    and m: "m = \<lparr>group0 = take (length t - length rest) t, groups = g\<rparr>"
    using match_atD by blast
  from hd[unfolded matches_lit_Seq] have w: "take (length w) t = w"
    and r: "(rest, g) \<in> set (matches r (drop (length w) t, Map.empty))"
    by (simp_all split: if_splits)
  from r obtain u where u: "drop (length w) t = u @ rest"
    using matches_suffix by blast
  have "t = take (length w) t @ drop (length w) t" by simp
  with w u have "t = w @ u @ rest" by simp
  then have "take (length t - length rest) t = w @ u" by simp
  with m show ?thesis by simp
qed

text \<open>A match of a pattern that begins with one character and a word.\<close>

lemma match_at_one_lit:
  assumes "match_at (Seq (One a) (Seq (lit w) r)) t = Some m"
  shows "\<exists>c u. accepts a c \<and> group0 m = c # w @ u"
proof -
  from assms obtain rest g where
    hd: "(rest, g) \<in> set (matches (Seq (One a) (Seq (lit w) r)) (t, Map.empty))"
    and m: "m = \<lparr>group0 = take (length t - length rest) t, groups = g\<rparr>"
    using match_atD by blast
  have one: "matches (Seq (One a) r') (t, Map.empty) =
      (case t of [] \<Rightarrow> [] | c # cs \<Rightarrow> if accepts a c then matches r' (cs, Map.empty) else [])" for r'
    by (cases t) simp_all
  from hd obtain c cs where t: "t = c # cs" and c: "accepts a c"
    and tl: "(rest, g) \<in> set (matches (Seq (lit w) r) (cs, Map.empty))"
    unfolding one by (cases t) (simp_all split: if_splits)
  from tl[unfolded matches_lit_Seq] have w: "take (length w) cs = w"
    and r: "(rest, g) \<in> set (matches r (drop (length w) cs, Map.empty))"
    by (simp_all split: if_splits)
  from r obtain u where u: "drop (length w) cs = u @ rest"
    using matches_suffix by blast
  have "cs = take (length w) cs @ drop (length w) cs" by simp
  with w u have "cs = w @ u @ rest" by simp
  with t have "take (length t - length rest) t = c # w @ u" by simp
  with m c show ?thesis by auto
qed

lemma scan_match_at:
  "m \<in> set (scan r k s) \<Longrightarrow> \<exists>t. match_at r t = Some m"
proof (induction s arbitrary: k)
  case Nil
  then show ?case by simp
next
  case (Cons c cs)
  show ?case
  proof (cases "0 < k")
    case True
    with Cons show ?thesis by simp
  next
    case False
    show ?thesis
    proof (cases "match_at r (c # cs)")
      case None
      with False Cons show ?thesis by simp
    next
      case (Some m')
      with False Cons.prems have "m = m' \<or> m \<in> set (scan r (length (group0 m') - 1) cs)"
        by simp
      with Some Cons.IH show ?thesis by blast
    qed
  qed
qed

lemma finditer_match_at: "m \<in> set (finditer r text) \<Longrightarrow> \<exists>t. match_at r t = Some m"
  unfolding finditer_def by (rule scan_match_at)


lemma matches_keeps_groups:
  "(rest, g') \<in> set (matches r (s, g)) \<Longrightarrow> i \<notin> group_ids r \<Longrightarrow> g' i = g i"
proof (induction r arbitrary: s g rest g')
  case Eps
  then show ?case by simp
next
  case (One a)
  then show ?case by (cases s) (simp_all split: if_splits)
next
  case (Seq r1 r2)
  from Seq.prems obtain mid gm where
    "(mid, gm) \<in> set (matches r1 (s, g))" "(rest, g') \<in> set (matches r2 (mid, gm))"
    by auto
  with Seq.IH Seq.prems(2) have "gm i = g i" "g' i = gm i" by auto
  then show ?case by simp
next
  case (Alt r1 r2)
  then show ?case by auto
next
  case (Opt r)
  then show ?case by auto
next
  case (Star a)
  then show ?case by auto
next
  case (Plus a)
  then show ?case by (cases s) (auto split: if_splits)
next
  case (Rep n a)
  then show ?case by auto
next
  case (Group j r)
  from Group.prems obtain g0 where
    "(rest, g0) \<in> set (matches r (s, g))" "g' = g0(j \<mapsto> take (length s - length rest) s)"
    by auto
  with Group.IH Group.prems(2) show ?case by auto
qed

lemma matches_SeqD:
  assumes "(rest, g) \<in> set (matches (Seq r1 r2) cfg)"
  shows "\<exists>mid gm. (mid, gm) \<in> set (matches r1 cfg) \<and> (rest, g) \<in> set (matches r2 (mid, gm))"
proof -
  from assms obtain x where x: "x \<in> set (matches r1 cfg)" "(rest, g) \<in> set (matches r2 x)"
    by auto
  obtain mid gm where "x = (mid, gm)" by (cases x)
  with x show ?thesis by blast
qed

lemma matches_GroupD:
  assumes "(rest, g) \<in> set (matches (Group i r) (s, g0))"
  shows "\<exists>g1. (rest, g1) \<in> set (matches r (s, g0)) \<and>
           g = g1(i \<mapsto> take (length s - length rest) s)"
  using assms by auto

lemma page_marker_groups: "1 \<notin> group_ids (Seq page_marker (seqs []))"
  by (simp add: page_marker_def seqs_def)

lemma nja_match_prefix:
  "match_at nja_re t = Some m \<Longrightarrow> \<exists>u. group0 m = ''NJA'' @ u"
  unfolding nja_re_def seqs_Cons by (rule match_at_lit)

lemma prop_match_prefix:
  "match_at prop_re t = Some m \<Longrightarrow> \<exists>c u. accepts (OneOf ''pP'') c \<and> group0 m = c # ''rop'' @ u"
  unfolding prop_re_def seqs_Cons by (rule match_at_one_lit)

lemma bet_match_prefix:
  "match_at bet_re t = Some m \<Longrightarrow> \<exists>c u. accepts (OneOf ''bB'') c \<and> group0 m = c # ''et'' @ u"
  unfolding bet_re_def seqs_Cons by (rule match_at_one_lit)

lemma mot_match_prefix:
  "match_at mot_re t = Some m \<Longrightarrow> \<exists>c u. accepts (OneOf ''mM'') c \<and> group0 m = c # ''ot'' @ u"
  unfolding mot_re_def seqs_Cons by (rule match_at_one_lit)

text \<open>A match of a pattern that begins with a group that begins with a word.\<close>

lemma match_at_group_lit:
  assumes "match_at (Seq (Group i (Seq (lit w) r)) r') t = Some m" and "i \<notin> group_ids r'"
  shows "\<exists>u v. groups m i = Some (w @ u) \<and> group0 m = w @ u @ v"
proof -
  from assms(1) obtain rest g where
    hd: "(rest, g) \<in> set (matches (Seq (Group i (Seq (lit w) r)) r') (t, Map.empty))"
    and m: "m = \<lparr>group0 = take (length t - length rest) t, groups = g\<rparr>"
    using match_atD by blast
  from hd obtain mid gm where
    grp: "(mid, gm) \<in> set (matches (Group i (Seq (lit w) r)) (t, Map.empty))"
    and tl: "(rest, g) \<in> set (matches r' (mid, gm))"
    using matches_SeqD by blast
  from grp obtain g0 where
    inner: "(mid, g0) \<in> set (matches (Seq (lit w) r) (t, Map.empty))"
    and gm: "gm = g0(i \<mapsto> take (length t - length mid) t)"
    using matches_GroupD by blast
  from inner[unfolded matches_lit_Seq] have w: "take (length w) t = w"
    and r: "(mid, g0) \<in> set (matches r (drop (length w) t, Map.empty))"
    by (simp_all split: if_splits)
  from r obtain u where u: "drop (length w) t = u @ mid"
    using matches_suffix by blast
  from tl obtain v where v: "mid = v @ rest"
    using matches_suffix by blast
  have "t = take (length w) t @ drop (length w) t" by simp
  with w u have t: "t = w @ u @ mid" by simp
  then have "take (length t - length mid) t = w @ u" by simp
  with gm have "gm i = Some (w @ u)" by simp
  moreover have "g i = gm i" using tl assms(2) by (rule matches_keeps_groups)
  moreover have "take (length t - length rest) t = w @ u @ v" using t v by simp
  ultimately show ?thesis using m by simp
qed

lemma sou_match_prefix:
  assumes "match_at sou_re t = Some m"
  shows "\<exists>u v. groups m 1 = Some (''SOU'' @ u) \<and> group0 m = ''SOU'' @ u @ v"
  using assms[unfolded sou_re_def seqs_Cons] page_marker_groups
  by (rule match_at_group_lit)


lemma collapse_ws_Cons:
  assumes "\<not> is_space c"
  shows "collapse_ws (c # cs) = c # collapse_ws cs"
proof -
  have "match_at (Plus Space) (c # cs) = None"
    using assms by (simp add: match_at_def)
  then show ?thesis by (simp add: collapse_ws_def re_sub_def)
qed

lemma nja_pair_shape:
  assumes "(k, page) \<in> set (nja_pairs text)"
  shows "page = None \<and> (\<exists>u. k = CHR ''N'' # u)"
proof -
  from assms obtain m where m: "m \<in> set (finditer nja_re text)"
    and k: "k = collapse_ws (group0 m)" and p: "page = None"
    by (auto simp: nja_pairs_def)
  from m obtain t where "match_at nja_re t = Some m" using finditer_match_at by blast
  then obtain u where "group0 m = ''NJA'' @ u" using nja_match_prefix by blast
  then have "k = CHR ''N'' # collapse_ws (''JA'' @ u)"
    using k by (simp add: collapse_ws_Cons is_space_def)
  with p show ?thesis by blast
qed

lemma sou_pair_shape:
  assumes "(k, page) \<in> set (sou_pairs text)"
  shows "\<exists>u. k = CHR ''S'' # u"
proof -
  from assms obtain m where m: "m \<in> set (finditer sou_re text)"
    and k: "k = collapse_ws (group_str m 1)"
    by (auto simp: sou_pairs_def)
  from m obtain t where "match_at sou_re t = Some m" using finditer_match_at by blast
  then obtain u where "groups m 1 = Some (''SOU'' @ u)" using sou_match_prefix by blast
  then have "group_str m 1 = ''SOU'' @ u" by (simp add: group_str_def)
  then have "k = CHR ''S'' # collapse_ws (''OU'' @ u)"
    using k by (simp add: collapse_ws_Cons is_space_def)
  then show ?thesis by blast
qed

lemma other_pair_shape:
  assumes "(k, page) \<in> set (prop_pairs text @ sou_pairs text @ bet_pairs text @ mot_pairs text)"
  shows "\<exists>c u. k = c # u \<and> c \<noteq> CHR ''N''"
proof -
  consider "(k, page) \<in> set (prop_pairs text)" | "(k, page) \<in> set (sou_pairs text)"
    | "(k, page) \<in> set (bet_pairs text)" | "(k, page) \<in> set (mot_pairs text)"
    using assms by auto
  then show ?thesis
  proof cases
    case 1
    then show ?thesis by (auto simp: prop_pairs_def)
  next
    case 2
    then obtain u where "k = CHR ''S'' # u" using sou_pair_shape by blast
    then show ?thesis by simp
  next
    case 3
    then show ?thesis by (auto simp: bet_pairs_def)
  next
    case 4
    then show ?thesis by (auto simp: mot_pairs_def)
  qed
qed

lemma aggregate_map_of:
  assumes "k \<in> fst ` set pairs"
  shows "map_of (aggregate pairs) k = Some (pages_in pairs k)"
proof -
  have "fst ` set (aggregate pairs) = fst ` set pairs"
    by (simp add: aggregate_def keys_foldl)
  with assms obtain ps where ps: "map_of (aggregate pairs) k = Some ps"
    by (cases "map_of (aggregate pairs) k") (simp_all add: map_of_eq_None_iff)
  have "bound (aggregate pairs) k = pages_in pairs k"
    unfolding aggregate_def bound_foldl by (simp add: bound_def)
  with ps show ?thesis by (simp add: bound_def)
qed

lemma nja_key_pages:
  assumes "(k, page) \<in> set (nja_pairs text)"
  shows "pages_in (citations_of_text text) k = {}"
proof -
  obtain u where k: "k = CHR ''N'' # u" using nja_pair_shape[OF assms] by blast
  have "p = []" if "(k, Some p) \<in> set (citations_of_text text)" for p
  proof -
    from that consider "(k, Some p) \<in> set (nja_pairs text)"
      | "(k, Some p) \<in> set (prop_pairs text @ sou_pairs text @ bet_pairs text @ mot_pairs text)"
      by (auto simp: citations_of_text_def)
    then show ?thesis
    proof cases
      case 1
      then show ?thesis using nja_pair_shape by blast
    next
      case 2
      then obtain c v where "k = c # v" "c \<noteq> CHR ''N''" using other_pair_shape by blast
      with k show ?thesis by simp
    qed
  qed
  then show ?thesis by (auto simp: pages_in_def)
qed

text \<open>
  Claim C10: every pair of the NJA family has an absent page; its key is the
  whole match with its white space collapsed, the \<open>s.\<close> and the number
  included; no other family yields the key, so the aggregated page set of the
  key is empty, and a link built for the key has no qualifiers.
\<close>

theorem nja_pairs_carry_no_page:
  "\<forall>kp \<in> set (nja_pairs text).
     snd kp = None \<and>
     (\<exists>m \<in> set (finditer nja_re text). fst kp = collapse_ws (group0 m)) \<and>
     map_of (aggregate (citations_of_text text)) (fst kp) = Some {} \<and>
     (\<forall>link \<in> set (links_for e refs (fst kp, bound (aggregate (citations_of_text text)) (fst kp))).
        qualifiers link = {})"
proof
  fix kp assume kp: "kp \<in> set (nja_pairs text)"
  obtain k page where [simp]: "kp = (k, page)" by (cases kp)
  from kp have in_nja: "(k, page) \<in> set (nja_pairs text)" by simp
  then have none: "page = None" using nja_pair_shape by blast
  from in_nja have m: "\<exists>m \<in> set (finditer nja_re text). k = collapse_ws (group0 m)"
    by (auto simp: nja_pairs_def)
  from in_nja have "k \<in> fst ` set (citations_of_text text)"
    by (force simp: citations_of_text_def)
  then have "map_of (aggregate (citations_of_text text)) k =
      Some (pages_in (citations_of_text text) k)"
    by (rule aggregate_map_of)
  then have agg: "map_of (aggregate (citations_of_text text)) k = Some {}"
    using nja_key_pages[OF in_nja] by simp
  then have "bound (aggregate (citations_of_text text)) k = {}" by (simp add: bound_def)
  then have "\<forall>link \<in> set (links_for e refs (k, bound (aggregate (citations_of_text text)) k)).
      qualifiers link = {}"
    by (auto simp: cites_def split: sum.splits list.splits)
  with none m agg show
    "snd kp = None \<and>
     (\<exists>m \<in> set (finditer nja_re text). fst kp = collapse_ws (group0 m)) \<and>
     map_of (aggregate (citations_of_text text)) (fst kp) = Some {} \<and>
     (\<forall>link \<in> set (links_for e refs (fst kp, bound (aggregate (citations_of_text text)) (fst kp))).
        qualifiers link = {})"
    by simp
qed

lemma nja_scenario:
  "nja_pairs ''NJA 2019 s. 45 och NJA 2019   s. 45'' =
     [(''NJA 2019 s. 45'', None), (''NJA 2019 s. 45'', None)]"
  by code_simp

theorem nja_pairs_carry_no_page_witness:
  "(''NJA 2019 s. 45'', None) \<in> set (nja_pairs ''NJA 2019 s. 45 och NJA 2019   s. 45'') \<and>
   map_of (aggregate (citations_of_text ''NJA 2019 s. 45 och NJA 2019   s. 45'')) ''NJA 2019 s. 45'' =
     Some {}"
proof -
  have mem: "(''NJA 2019 s. 45'', None) \<in> set (nja_pairs ''NJA 2019 s. 45 och NJA 2019   s. 45'')"
    by (simp add: nja_scenario)
  from bspec[OF nja_pairs_carry_no_page mem]
  have "map_of (aggregate (citations_of_text ''NJA 2019 s. 45 och NJA 2019   s. 45''))
          (fst (''NJA 2019 s. 45'', None :: string option)) = Some {}"
    by blast
  with mem show ?thesis by simp
qed

lemma match_at_One_reject:
  "\<not> accepts a c \<Longrightarrow> match_at (Seq (One a) r) (c # rest) = None"
  by (simp add: match_at_def)

lemma match_at_lit_reject:
  "d \<noteq> c \<Longrightarrow> match_at (Seq (lit (d # w)) r) (c # rest) = None"
  unfolding match_at_def matches_lit_Seq by simp

lemma match_at_group_lit_reject:
  "d \<noteq> c \<Longrightarrow> match_at (Seq (Group i (Seq (lit (d # w)) r)) r') (c # rest) = None"
proof -
  assume "d \<noteq> c"
  then have inner: "matches (Seq (lit (d # w)) r) (c # rest, Map.empty) = []"
    unfolding matches_lit_Seq by simp
  have grp: "matches (Group i x) cfg = [] " if "matches x cfg = []" for x cfg
    using that by (cases cfg) simp
  have sq: "matches (Seq x y) cfg = []" if "matches x cfg = []" for x y cfg
    using that by simp
  have "matches (Seq (Group i (Seq (lit (d # w)) r)) r') (c # rest, Map.empty) = []"
    by (rule sq, rule grp, rule inner)
  then show ?thesis unfolding match_at_def by (simp only: list.case)
qed

lemma scan_head_none:
  "match_at r (c # rest) = None \<Longrightarrow> scan r 0 (c # rest) = scan r 0 rest"
  by simp

text \<open>
  Where the first atom of a pattern accepts both of two characters, the match
  tried at a position does not depend on which of the two stands there, but
  for the first character of the text matched.
\<close>

lemma match_at_One_alike:
  assumes "accepts a c" and "accepts a c'"
  shows "map_option groups (match_at (Seq (One a) r) (c # rest)) =
           map_option groups (match_at (Seq (One a) r) (c' # rest)) \<and>
         map_option (\<lambda>m. length (group0 m)) (match_at (Seq (One a) r) (c # rest)) =
           map_option (\<lambda>m. length (group0 m)) (match_at (Seq (One a) r) (c' # rest)) \<and>
         map_option (\<lambda>m. tl (group0 m)) (match_at (Seq (One a) r) (c # rest)) =
           map_option (\<lambda>m. tl (group0 m)) (match_at (Seq (One a) r) (c' # rest))"
proof (cases "matches r (rest, Map.empty)")
  case Nil
  with assms show ?thesis by (simp add: match_at_def)
next
  case (Cons x xs)
  obtain left g where x: "x = (left, g)" by (cases x)
  with Cons have "(left, g) \<in> set (matches r (rest, Map.empty))" by simp
  then obtain u where "rest = u @ left" using matches_suffix by blast
  then have "Suc (length rest) - length left = Suc (length u)" by simp
  with assms Cons x show ?thesis by (simp add: match_at_def)
qed

lemma scan_One_alike:
  assumes "accepts a c" and "accepts a c'"
  shows "map groups (scan (Seq (One a) r) 0 (c # rest)) =
         map groups (scan (Seq (One a) r) 0 (c' # rest))"
proof -
  note alike = match_at_One_alike[OF assms, of r rest]
  show ?thesis
  proof (cases "match_at (Seq (One a) r) (c # rest)")
    case None
    with alike have "match_at (Seq (One a) r) (c' # rest) = None" by simp
    with None show ?thesis by simp
  next
    case (Some m)
    with alike obtain m' where m': "match_at (Seq (One a) r) (c' # rest) = Some m'"
      by (cases "match_at (Seq (One a) r) (c' # rest)") simp_all
    with Some alike have "groups m = groups m'" "length (group0 m) = length (group0 m')"
      by simp_all
    with Some m' show ?thesis by simp
  qed
qed

lemma prop_pairs_groups:
  "prop_pairs text =
     map (\<lambda>g. (''Prop. '' @ (case g 1 of None \<Rightarrow> [] | Some t \<Rightarrow> t), g 2))
       (map groups (finditer prop_re text))"
  by (simp add: prop_pairs_def group_str_def comp_def)

lemma bet_pairs_groups:
  "bet_pairs text =
     map (\<lambda>g. (''bet. '' @ (case g 1 of None \<Rightarrow> [] | Some t \<Rightarrow> t), g 2))
       (map groups (finditer bet_re text))"
  by (simp add: bet_pairs_def group_str_def comp_def)

lemma mot_pairs_groups:
  "mot_pairs text =
     map (\<lambda>g. (''Mot. '' @ (case g 1 of None \<Rightarrow> [] | Some t \<Rightarrow> t), g 2))
       (map groups (finditer mot_re text))"
  by (simp add: mot_pairs_def group_str_def comp_def)

lemma nja_skips:
  "c \<noteq> CHR ''N'' \<Longrightarrow> finditer nja_re (c # rest) = finditer nja_re rest"
  unfolding finditer_def nja_re_def seqs_Cons
  by (rule scan_head_none) (simp add: match_at_lit_reject)

lemma sou_skips:
  "c \<noteq> CHR ''S'' \<Longrightarrow> finditer sou_re (c # rest) = finditer sou_re rest"
  unfolding finditer_def sou_re_def seqs_Cons
  by (rule scan_head_none) (simp add: match_at_group_lit_reject)

lemma prop_skips:
  "c \<noteq> CHR ''p'' \<Longrightarrow> c \<noteq> CHR ''P'' \<Longrightarrow> finditer prop_re (c # rest) = finditer prop_re rest"
  unfolding finditer_def prop_re_def seqs_Cons
  by (rule scan_head_none) (simp add: match_at_One_reject)

lemma bet_skips:
  "c \<noteq> CHR ''b'' \<Longrightarrow> c \<noteq> CHR ''B'' \<Longrightarrow> finditer bet_re (c # rest) = finditer bet_re rest"
  unfolding finditer_def bet_re_def seqs_Cons
  by (rule scan_head_none) (simp add: match_at_One_reject)

lemma mot_skips:
  "c \<noteq> CHR ''m'' \<Longrightarrow> c \<noteq> CHR ''M'' \<Longrightarrow> finditer mot_re (c # rest) = finditer mot_re rest"
  unfolding finditer_def mot_re_def seqs_Cons
  by (rule scan_head_none) (simp add: match_at_One_reject)

lemma prop_first_letter:
  "citations_of_text (CHR ''p'' # rest) = citations_of_text (CHR ''P'' # rest)"
proof -
  have "map groups (finditer prop_re (CHR ''p'' # rest)) =
        map groups (finditer prop_re (CHR ''P'' # rest))"
    unfolding finditer_def prop_re_def seqs_Cons by (rule scan_One_alike) simp_all
  then have "prop_pairs (CHR ''p'' # rest) = prop_pairs (CHR ''P'' # rest)"
    by (simp only: prop_pairs_groups)
  then show ?thesis
    by (simp add: citations_of_text_def nja_pairs_def sou_pairs_def bet_pairs_def mot_pairs_def
          nja_skips sou_skips bet_skips mot_skips)
qed

lemma bet_first_letter:
  "citations_of_text (CHR ''b'' # rest) = citations_of_text (CHR ''B'' # rest)"
proof -
  have "map groups (finditer bet_re (CHR ''b'' # rest)) =
        map groups (finditer bet_re (CHR ''B'' # rest))"
    unfolding finditer_def bet_re_def seqs_Cons by (rule scan_One_alike) simp_all
  then have "bet_pairs (CHR ''b'' # rest) = bet_pairs (CHR ''B'' # rest)"
    by (simp only: bet_pairs_groups)
  then show ?thesis
    by (simp add: citations_of_text_def nja_pairs_def sou_pairs_def prop_pairs_def mot_pairs_def
          nja_skips sou_skips prop_skips mot_skips)
qed

lemma mot_first_letter:
  "citations_of_text (CHR ''m'' # rest) = citations_of_text (CHR ''M'' # rest)"
proof -
  have "map groups (finditer mot_re (CHR ''m'' # rest)) =
        map groups (finditer mot_re (CHR ''M'' # rest))"
    unfolding finditer_def mot_re_def seqs_Cons by (rule scan_One_alike) simp_all
  then have "mot_pairs (CHR ''m'' # rest) = mot_pairs (CHR ''M'' # rest)"
    by (simp only: mot_pairs_groups)
  then show ?thesis
    by (simp add: citations_of_text_def nja_pairs_def sou_pairs_def prop_pairs_def bet_pairs_def
          nja_skips sou_skips prop_skips bet_skips)
qed

lemma attempt_One_alike:
  assumes "accepts a c" and "accepts a c'"
  shows "attempt (Seq (One a) r) (c # rest) = attempt (Seq (One a) r) (c' # rest)"
proof -
  note alike = match_at_One_alike[OF assms, of r rest]
  show ?thesis
  proof (cases "match_at (Seq (One a) r) (c # rest)")
    case None
    with alike have "match_at (Seq (One a) r) (c' # rest) = None" by simp
    with None show ?thesis by (simp add: attempt_def)
  next
    case (Some m)
    with alike obtain m' where m': "match_at (Seq (One a) r) (c' # rest) = Some m'"
      by (cases "match_at (Seq (One a) r) (c' # rest)") simp_all
    with Some alike have "groups m = groups m'" "length (group0 m) = length (group0 m')"
      by simp_all
    with Some m' show ?thesis by (simp add: attempt_def)
  qed
qed

lemma first_letter_attempts:
  "attempt prop_re (CHR ''p'' # rest) = attempt prop_re (CHR ''P'' # rest)"
  "attempt bet_re (CHR ''b'' # rest) = attempt bet_re (CHR ''B'' # rest)"
  "attempt mot_re (CHR ''m'' # rest) = attempt mot_re (CHR ''M'' # rest)"
  unfolding prop_re_def bet_re_def mot_re_def seqs_Cons
  by (rule attempt_One_alike; simp)+

lemma star_ends_chars:
  "rest \<in> set (star_ends a s) \<Longrightarrow> \<exists>m. s = m @ rest \<and> (\<forall>c \<in> set m. accepts a c)"
proof (induction s)
  case Nil
  then show ?case by simp
next
  case (Cons c cs)
  show ?case
  proof (cases "rest = c # cs")
    case True
    then show ?thesis by simp
  next
    case False
    with Cons.prems have acc: "accepts a c" and "rest \<in> set (star_ends a cs)"
      by (simp_all split: if_splits)
    then obtain m where "cs = m @ rest" "\<forall>c \<in> set m. accepts a c" using Cons.IH by blast
    with acc have "c # cs = (c # m) @ rest \<and> (\<forall>c \<in> set (c # m). accepts a c)" by simp
    then show ?thesis by blast
  qed
qed

lemma rep_ends_chars:
  "rest \<in> set (rep_ends n a s) \<Longrightarrow> \<exists>m. s = m @ rest \<and> (\<forall>c \<in> set m. accepts a c)"
proof (induction n a s rule: rep_ends.induct)
  case (1 a s)
  then show ?case by simp
next
  case (2 n a)
  then show ?case by simp
next
  case (3 n a c cs)
  then have acc: "accepts a c" and "rest \<in> set (rep_ends n a cs)" by (simp_all split: if_splits)
  then obtain m where "cs = m @ rest" "\<forall>c \<in> set m. accepts a c" using "3.IH" by blast
  with acc have "c # cs = (c # m) @ rest \<and> (\<forall>c \<in> set (c # m). accepts a c)" by simp
  then show ?case by blast
qed

lemma matches_chars:
  "(rest, g') \<in> set (matches r (s, g)) \<Longrightarrow>
   \<exists>m. s = m @ rest \<and> (\<forall>c \<in> set m. \<exists>a \<in> atoms_of r. accepts a c)"
proof (induction r arbitrary: s g rest g')
  case Eps
  then show ?case by simp
next
  case (One a)
  show ?case
  proof (cases s)
    case Nil
    with One show ?thesis by simp
  next
    case (Cons c cs)
    with One have "accepts a c" "rest = cs" by (simp_all split: if_splits)
    with Cons have "s = [c] @ rest \<and> (\<forall>d \<in> set [c]. \<exists>b \<in> atoms_of (One a). accepts b d)" by simp
    then show ?thesis by blast
  qed
next
  case (Seq r1 r2)
  from Seq.prems obtain mid gm where
    first: "(mid, gm) \<in> set (matches r1 (s, g))"
    and second: "(rest, g') \<in> set (matches r2 (mid, gm))"
    using matches_SeqD by blast
  from Seq.IH(1)[OF first] obtain m1 where
    m1: "s = m1 @ mid" "\<forall>c \<in> set m1. \<exists>a \<in> atoms_of r1. accepts a c"
    by blast
  from Seq.IH(2)[OF second] obtain m2 where
    m2: "mid = m2 @ rest" "\<forall>c \<in> set m2. \<exists>a \<in> atoms_of r2. accepts a c"
    by blast
  have "s = (m1 @ m2) @ rest" using m1(1) m2(1) by simp
  moreover have "\<forall>c \<in> set (m1 @ m2). \<exists>a \<in> atoms_of (Seq r1 r2). accepts a c"
    using m1(2) m2(2) by auto
  ultimately show ?case by blast
next
  case (Alt r1 r2)
  then have "(rest, g') \<in> set (matches r1 (s, g)) \<or> (rest, g') \<in> set (matches r2 (s, g))"
    by simp
  then show ?case
  proof
    assume "(rest, g') \<in> set (matches r1 (s, g))"
    from Alt.IH(1)[OF this] obtain m where
      "s = m @ rest" "\<forall>c \<in> set m. \<exists>a \<in> atoms_of r1. accepts a c" by blast
    then have "s = m @ rest \<and> (\<forall>c \<in> set m. \<exists>a \<in> atoms_of (Alt r1 r2). accepts a c)"
      by auto
    then show ?thesis by blast
  next
    assume "(rest, g') \<in> set (matches r2 (s, g))"
    from Alt.IH(2)[OF this] obtain m where
      "s = m @ rest" "\<forall>c \<in> set m. \<exists>a \<in> atoms_of r2. accepts a c" by blast
    then have "s = m @ rest \<and> (\<forall>c \<in> set m. \<exists>a \<in> atoms_of (Alt r1 r2). accepts a c)"
      by auto
    then show ?thesis by blast
  qed
next
  case (Opt r)
  then have "(rest, g') \<in> set (matches r (s, g)) \<or> rest = s" by auto
  then show ?case
  proof
    assume "(rest, g') \<in> set (matches r (s, g))"
    from Opt.IH[OF this] show ?thesis by simp
  next
    assume "rest = s"
    then have "s = [] @ rest \<and> (\<forall>c \<in> set []. \<exists>a \<in> atoms_of (Opt r). accepts a c)" by simp
    then show ?thesis by blast
  qed
next
  case (Star a)
  then have "rest \<in> set (star_ends a s)" by auto
  then obtain m where "s = m @ rest" "\<forall>c \<in> set m. accepts a c"
    using star_ends_chars by blast
  then have "s = m @ rest \<and> (\<forall>c \<in> set m. \<exists>b \<in> atoms_of (Star a). accepts b c)" by simp
  then show ?case by blast
next
  case (Plus a)
  show ?case
  proof (cases s)
    case Nil
    with Plus show ?thesis by simp
  next
    case (Cons c cs)
    with Plus have acc: "accepts a c" and "rest \<in> set (star_ends a cs)" by (auto split: if_splits)
    then obtain m where "cs = m @ rest" "\<forall>c \<in> set m. accepts a c" using star_ends_chars by blast
    with acc Cons have "s = (c # m) @ rest \<and> (\<forall>d \<in> set (c # m). \<exists>b \<in> atoms_of (Plus a). accepts b d)"
      by simp
    then show ?thesis by blast
  qed
next
  case (Rep n a)
  then have "rest \<in> set (rep_ends n a s)" by auto
  then obtain m where "s = m @ rest" "\<forall>c \<in> set m. accepts a c"
    using rep_ends_chars by blast
  then have "s = m @ rest \<and> (\<forall>c \<in> set m. \<exists>b \<in> atoms_of (Rep n a). accepts b c)" by simp
  then show ?case by blast
next
  case (Group i r)
  then obtain g1 where "(rest, g1) \<in> set (matches r (s, g))" using matches_GroupD by blast
  from Group.IH[OF this] show ?case by simp
qed


lemma match_at_prefix:
  assumes "match_at r t = Some m"
  shows "\<exists>rest. t = group0 m @ rest"
proof -
  from assms obtain rest g where
    "(rest, g) \<in> set (matches r (t, Map.empty))"
    "m = \<lparr>group0 = take (length t - length rest) t, groups = g\<rparr>"
    using match_atD by blast
  moreover then obtain u where "t = u @ rest" using matches_suffix by blast
  ultimately have "t = group0 m @ rest" by simp
  then show ?thesis by blast
qed

lemma match_at_tail_chars:
  assumes "match_at (Seq (One a0) r) t = Some m"
    and "\<forall>a \<in> atoms_of r. \<not> accepts a x"
  shows "x \<notin> set (tl (group0 m))"
proof -
  from assms(1) obtain rest g where
    hd: "(rest, g) \<in> set (matches (Seq (One a0) r) (t, Map.empty))"
    and m: "m = \<lparr>group0 = take (length t - length rest) t, groups = g\<rparr>"
    using match_atD by blast
  have one: "matches (Seq (One a0) r') (t, Map.empty) =
      (case t of [] \<Rightarrow> [] | c # cs \<Rightarrow> if accepts a0 c then matches r' (cs, Map.empty) else [])" for r'
    by (cases t) simp_all
  from hd obtain c cs where t: "t = c # cs"
    and tl: "(rest, g) \<in> set (matches r (cs, Map.empty))"
    unfolding one by (cases t) (simp_all split: if_splits)
  from tl obtain u where u: "cs = u @ rest" "\<forall>d \<in> set u. \<exists>a \<in> atoms_of r. accepts a d"
    using matches_chars by blast
  with assms(2) have "x \<notin> set u" by blast
  moreover have "group0 m = c # u" using m t u(1) by simp
  ultimately show ?thesis by simp
qed

lemma scan_reaches:
  assumes free: "\<And>t m. match_at r t = Some m \<Longrightarrow> x \<notin> set (tl (group0 m))"
  shows "k \<le> length pre \<Longrightarrow> \<exists>ms. scan r k (pre @ x # s) = ms @ scan r 0 (x # s)"
proof (induction pre arbitrary: k)
  case Nil
  then have "scan r k ([] @ x # s) = [] @ scan r 0 (x # s)" by simp
  then show ?case by blast
next
  case (Cons c pre)
  show ?case
  proof (cases "0 < k")
    case True
    with Cons.prems have "k - 1 \<le> length pre" by simp
    then obtain ms where "scan r (k - 1) (pre @ x # s) = ms @ scan r 0 (x # s)"
      using Cons.IH by blast
    with True show ?thesis by simp
  next
    case False
    show ?thesis
    proof (cases "match_at r (c # pre @ x # s)")
      case None
      obtain ms where "scan r 0 (pre @ x # s) = ms @ scan r 0 (x # s)"
        using Cons.IH[of 0] by auto
      with None False show ?thesis by simp
    next
      case (Some m)
      then obtain rest where split: "c # pre @ x # s = group0 m @ rest"
        using match_at_prefix by blast
      have short: "length (group0 m) - 1 \<le> length pre"
      proof (cases "group0 m")
        case Nil
        then show ?thesis by simp
      next
        case (Cons d ds)
        with split have eq: "ds @ rest = pre @ x # s" by simp
        have "x \<notin> set ds" using free[OF Some] Cons by simp
        from eq obtain us where
          "(ds = pre @ us \<and> us @ rest = x # s) \<or> (ds @ us = pre \<and> rest = us @ x # s)"
          unfolding append_eq_append_conv2 by blast
        then show ?thesis
        proof
          assume a: "ds = pre @ us \<and> us @ rest = x # s"
          have "us = []"
          proof (cases us)
            case (Cons y ys)
            with a have "y = x" by simp
            with a Cons have "x \<in> set ds" by simp
            with \<open>x \<notin> set ds\<close> show ?thesis by simp
          qed simp
          with a Cons show ?thesis by simp
        next
          assume "ds @ us = pre \<and> rest = us @ x # s"
          then have "length ds \<le> length pre" by auto
          with Cons show ?thesis by simp
        qed
      qed
      then obtain ms where "scan r (length (group0 m) - 1) (pre @ x # s) = ms @ scan r 0 (x # s)"
        using Cons.IH by blast
      with Some False have "scan r k ((c # pre) @ x # s) = (m # ms) @ scan r 0 (x # s)" by simp
      then show ?thesis by blast
    qed
  qed
qed

lemma star_ends_stop: "s = [] \<or> \<not> accepts a (hd s) \<Longrightarrow> star_ends a s = [s]"
  by (cases s) auto

lemma prop_occurrence:
  assumes "post = [] \<or> \<not> is_digit (hd post)"
  shows "\<exists>m. match_at prop_re (''Prop. 2005/06:55 s. 12'' @ post) = Some m \<and>
           groups m 1 = Some ''2005/06:55'' \<and> groups m 2 = Some ''12''"
proof -
  have stop: "star_ends Digit post = [post]"
    using assms by (intro star_ends_stop) simp
  show ?thesis
    by (simp add: match_at_def prop_re_def seqs_def lit_def session_def page_marker_def
          stop is_digit_def is_space_def eval_nat_numeral)
qed

subsection \<open>Group 1 is set in every match that reads it\<close>

lemma matches_keeps_set:
  "(rest, g') \<in> set (matches r (s, g)) \<Longrightarrow> g i \<noteq> None \<Longrightarrow> g' i \<noteq> None"
proof (induction r arbitrary: s g rest g')
  case Eps
  then show ?case by simp
next
  case (One a)
  then show ?case by (cases s) (simp_all split: if_splits)
next
  case (Seq r1 r2)
  from Seq.prems(1) obtain mid gm where
    m1: "(mid, gm) \<in> set (matches r1 (s, g))" and m2: "(rest, g') \<in> set (matches r2 (mid, gm))"
    using matches_SeqD by blast
  have "gm i \<noteq> None" using Seq.IH(1)[OF m1 Seq.prems(2)] .
  then show ?case using Seq.IH(2)[OF m2] by simp
next
  case (Alt r1 r2)
  from Alt.prems(1) have "(rest, g') \<in> set (matches r1 (s, g)) \<or> (rest, g') \<in> set (matches r2 (s, g))"
    by simp
  then show ?case using Alt.IH Alt.prems(2) by blast
next
  case (Opt r)
  from Opt.prems(1) have "(rest, g') \<in> set (matches r (s, g)) \<or> g' = g" by auto
  then show ?case using Opt.IH Opt.prems(2) by blast
next
  case (Star a)
  then show ?case by auto
next
  case (Plus a)
  then show ?case by (cases s) (auto split: if_splits)
next
  case (Rep n a)
  then show ?case by auto
next
  case (Group j r)
  from Group.prems(1) obtain g0 where
    m: "(rest, g0) \<in> set (matches r (s, g))" and g': "g' = g0(j \<mapsto> take (length s - length rest) s)"
    using matches_GroupD by blast
  have "g0 i \<noteq> None" using Group.IH[OF m Group.prems(2)] .
  with g' show ?case by simp
qed

lemma matches_binds:
  "(rest, g') \<in> set (matches r (s, g)) \<Longrightarrow> binds i r \<Longrightarrow> g' i \<noteq> None"
proof (induction r arbitrary: s g rest g')
  case (Seq r1 r2)
  from Seq.prems(1) obtain mid gm where
    m1: "(mid, gm) \<in> set (matches r1 (s, g))" and m2: "(rest, g') \<in> set (matches r2 (mid, gm))"
    using matches_SeqD by blast
  show ?case
  proof (cases "binds i r2")
    case True
    with Seq.IH(2)[OF m2] show ?thesis by simp
  next
    case False
    with Seq.prems(2) have "binds i r1" by simp
    then have "gm i \<noteq> None" using Seq.IH(1)[OF m1] by simp
    with m2 show ?thesis by (rule matches_keeps_set)
  qed
next
  case (Alt r1 r2)
  from Alt.prems(1) have "(rest, g') \<in> set (matches r1 (s, g)) \<or> (rest, g') \<in> set (matches r2 (s, g))"
    by simp
  then show ?case using Alt.IH Alt.prems(2) by auto
next
  case (Group j r)
  from Group.prems(1) obtain g0 where
    m: "(rest, g0) \<in> set (matches r (s, g))" and g': "g' = g0(j \<mapsto> take (length s - length rest) s)"
    using matches_GroupD by blast
  show ?case
  proof (cases "j = i")
    case True
    with g' show ?thesis by simp
  next
    case False
    with Group.prems(2) have "binds i r" by simp
    then have "g0 i \<noteq> None" using Group.IH[OF m] by simp
    with g' show ?thesis by simp
  qed
qed simp_all

lemma binds_families: "binds 1 prop_re" "binds 1 sou_re" "binds 1 bet_re" "binds 1 mot_re"
  by (simp_all add: prop_re_def sou_re_def bet_re_def mot_re_def seqs_def)

lemma group1_set:
  assumes "m \<in> set (finditer r text)" and "r \<in> {prop_re, sou_re, bet_re, mot_re}"
  shows "groups m 1 \<noteq> None"
proof -
  from assms(1) obtain t where "match_at r t = Some m" using finditer_match_at by blast
  then obtain rest g where
    "(rest, g) \<in> set (matches r (t, Map.empty))" "m = \<lparr>group0 = take (length t - length rest) t, groups = g\<rparr>"
    using match_atD by blast
  moreover have "binds 1 r" using assms(2) binds_families by auto
  ultimately show ?thesis using matches_binds by fastforce
qed

subsection \<open>Matches that stop before a part of the text\<close>

lemma ahead_pair: "ahead z (v, g) = (v @ z, g)"
  by (simp add: ahead_def)

lemma stopsD: "stops r z \<Longrightarrow> matches r (u @ z, g) = map (ahead z) (matches r (u, g))"
  by (simp add: stops_def)

lemma stops_ahead: "stops r z \<Longrightarrow> matches r (ahead z cfg) = map (ahead z) (matches r cfg)"
  by (cases cfg) (simp add: ahead_pair stopsD)

lemma star_ends_blocked:
  "z = [] \<or> \<not> accepts a (hd z) \<Longrightarrow> star_ends a (u @ z) = map (\<lambda>v. v @ z) (star_ends a u)"
proof (induction u)
  case Nil
  then show ?case by (simp add: star_ends_stop)
next
  case (Cons d u)
  then show ?case by simp
qed

lemma rep_ends_blocked:
  "z = [] \<or> \<not> accepts a (hd z) \<Longrightarrow> rep_ends n a (u @ z) = map (\<lambda>v. v @ z) (rep_ends n a u)"
proof (induction n arbitrary: u)
  case 0
  show ?case by simp
next
  case (Suc n)
  show ?case
  proof (cases u)
    case Nil
    with Suc.prems show ?thesis by (cases z) auto
  next
    case (Cons d ds)
    with Suc show ?thesis by simp
  qed
qed

lemma stops_Eps: "stops Eps z"
  by (simp add: stops_def ahead_pair)

lemma stops_One: "z = [] \<or> \<not> accepts a (hd z) \<Longrightarrow> stops (One a) z"
  unfolding stops_def
proof (intro allI)
  fix u g
  assume "z = [] \<or> \<not> accepts a (hd z)"
  then show "matches (One a) (u @ z, g) = map (ahead z) (matches (One a) (u, g))"
    by (cases u; cases z) (auto simp: ahead_pair)
qed

lemma stops_Seq: "stops r1 z \<Longrightarrow> stops r2 z \<Longrightarrow> stops (Seq r1 r2) z"
  unfolding stops_def
proof (intro allI)
  fix u g
  assume a: "\<forall>u g. matches r1 (u @ z, g) = map (ahead z) (matches r1 (u, g))"
    and b: "\<forall>u g. matches r2 (u @ z, g) = map (ahead z) (matches r2 (u, g))"
  have pt: "matches r2 (ahead z cfg) = map (ahead z) (matches r2 cfg)" for cfg
    using b by (cases cfg) (simp add: ahead_pair)
  show "matches (Seq r1 r2) (u @ z, g) = map (ahead z) (matches (Seq r1 r2) (u, g))"
    using a by (simp add: map_concat comp_def pt)
qed

lemma stops_Alt: "stops r1 z \<Longrightarrow> stops r2 z \<Longrightarrow> stops (Alt r1 r2) z"
  by (simp add: stops_def)

lemma stops_Opt: "stops r z \<Longrightarrow> stops (Opt r) z"
  by (simp add: stops_def ahead_pair)

lemma stops_Star: "z = [] \<or> \<not> accepts a (hd z) \<Longrightarrow> stops (Star a) z"
  by (simp add: stops_def star_ends_blocked comp_def ahead_pair)

lemma stops_Plus: "z = [] \<or> \<not> accepts a (hd z) \<Longrightarrow> stops (Plus a) z"
  unfolding stops_def
proof (intro allI)
  fix u g
  assume "z = [] \<or> \<not> accepts a (hd z)"
  then show "matches (Plus a) (u @ z, g) = map (ahead z) (matches (Plus a) (u, g))"
    by (cases u; cases z) (auto simp: ahead_pair star_ends_blocked comp_def)
qed

lemma stops_Rep: "z = [] \<or> \<not> accepts a (hd z) \<Longrightarrow> stops (Rep n a) z"
  by (simp add: stops_def rep_ends_blocked comp_def ahead_pair)

lemma stops_Group: "stops r z \<Longrightarrow> stops (Group i r) z"
  by (simp add: stops_def comp_def ahead_def case_prod_unfold)

lemma stops_atoms:
  "\<forall>a \<in> atoms_of r. z = [] \<or> \<not> accepts a (hd z) \<Longrightarrow> stops r z"
proof (induction r)
  case Eps
  show ?case by (rule stops_Eps)
next
  case (One a)
  then show ?case by (simp add: stops_One)
next
  case (Seq r1 r2)
  then show ?case by (simp add: stops_Seq)
next
  case (Alt r1 r2)
  then show ?case by (simp add: stops_Alt)
next
  case (Opt r)
  then show ?case by (simp add: stops_Opt)
next
  case (Star a)
  then show ?case by (simp add: stops_Star)
next
  case (Plus a)
  then show ?case by (simp add: stops_Plus)
next
  case (Rep n a)
  then show ?case by (simp add: stops_Rep)
next
  case (Group i r)
  then show ?case by (simp add: stops_Group)
qed

lemma digit_is_word: "is_digit c \<Longrightarrow> is_word c"
  by (simp add: is_digit_def is_word_def Let_def)

lemma plus_seq_Cons:
  "matches (Seq (Plus a) q) (d # s, g) =
     (if accepts a d then matches (Seq (Star a) q) (s, g) else [])"
  by (simp add: comp_def)

lemma star_seq_Cons:
  "matches (Seq (Star a) q) (d # s, g) =
     (if accepts a d then matches (Seq (Star a) q) (s, g) else []) @ matches q (d # s, g)"
  by (simp add: comp_def)

lemma digits_dead:
  "s = [] \<or> \<not> is_digit (hd s) \<Longrightarrow> matches (Seq (Plus Digit) r) (s, g) = []"
  by (cases s) simp_all

lemma word_run_dead:
  assumes "\<forall>d \<in> set y. is_word d \<and> \<not> is_digit d" and "t = [] \<or> \<not> is_word (hd t)"
  shows "matches (Seq (Star Word) (Seq (Plus Digit) r)) (y @ t, g) = []"
  using assms(1)
proof (induction y)
  case Nil
  have "t = [] \<or> \<not> is_digit (hd t)" using assms(2) digit_is_word by blast
  then have "matches (Seq (Plus Digit) r) (t, g) = []" by (rule digits_dead)
  moreover have "star_ends Word t = [t]" using assms(2) by (simp add: star_ends_stop)
  ultimately show ?case by simp
next
  case (Cons d y)
  then have "matches (Seq (Star Word) (Seq (Plus Digit) r)) (y @ t, g) = []" by simp
  moreover have "matches (Seq (Plus Digit) r) (d # y @ t, g) = []"
    using Cons.prems by (simp add: digits_dead)
  ultimately show ?case unfolding append_Cons star_seq_Cons by simp
qed

lemma stops_star_word_digit:
  assumes run: "\<forall>d \<in> set y. is_word d \<and> \<not> is_digit d" and t: "t = [] \<or> \<not> is_word (hd t)"
    and q: "stops (Seq (Plus Digit) r) (y @ t)"
  shows "matches (Seq (Star Word) (Seq (Plus Digit) r)) (u @ y @ t, g) =
         map (ahead (y @ t)) (matches (Seq (Star Word) (Seq (Plus Digit) r)) (u, g))"
proof (induction u)
  case Nil
  have "matches (Seq (Star Word) (Seq (Plus Digit) r)) (y @ t, g) = []"
    using run t by (rule word_run_dead)
  then show ?case by simp
next
  case (Cons d u)
  have "matches (Seq (Plus Digit) r) ((d # u) @ y @ t, g) =
        map (ahead (y @ t)) (matches (Seq (Plus Digit) r) (d # u, g))"
    using q by (rule stopsD)
  then show ?case
    unfolding append_Cons star_seq_Cons using Cons.IH by simp
qed

lemma stops_word_digit:
  assumes run: "\<forall>d \<in> set (c # w). is_word d \<and> \<not> is_digit d" and t: "t = [] \<or> \<not> is_word (hd t)"
    and r: "stops r (c # w @ t)"
  shows "stops (Seq (Plus Word) (Seq (Plus Digit) r)) (c # w @ t)"
  unfolding stops_def
proof (intro allI)
  fix u g
  have nd: "\<not> accepts Digit (hd (c # w @ t))" using run by simp
  have q: "stops (Seq (Plus Digit) r) ((c # w) @ t)"
    using nd r by (simp add: stops_Seq stops_Plus)
  show "matches (Seq (Plus Word) (Seq (Plus Digit) r)) (u @ c # w @ t, g) =
        map (ahead (c # w @ t)) (matches (Seq (Plus Word) (Seq (Plus Digit) r)) (u, g))"
  proof (cases u)
    case Nil
    have "\<forall>d \<in> set w. is_word d \<and> \<not> is_digit d" using run by simp
    then have dead: "matches (Seq (Star Word) (Seq (Plus Digit) r)) (w @ t, g) = []"
      using t by (rule word_run_dead)
    have "matches (Seq (Plus Word) (Seq (Plus Digit) r)) (c # w @ t, g) = []"
      unfolding plus_seq_Cons dead by simp
    moreover have "matches (Seq (Plus Word) (Seq (Plus Digit) r)) ([], g) = []" by simp
    ultimately show ?thesis unfolding Nil append_Nil by (simp only: list.map)
  next
    case (Cons d ds)
    have "matches (Seq (Star Word) (Seq (Plus Digit) r)) (ds @ (c # w) @ t, g) =
          map (ahead ((c # w) @ t)) (matches (Seq (Star Word) (Seq (Plus Digit) r)) (ds, g))"
      using run t q by (rule stops_star_word_digit)
    then show ?thesis unfolding Cons append_Cons plus_seq_Cons by (simp del: matches.simps)
  qed
qed

text \<open>The word \<open>rop\<close> of the bill pattern in front of a keyword that begins with \<open>pr\<close>.\<close>

lemma stops_rop:
  assumes r: "stops r (CHR ''p'' # CHR ''r'' # z)"
    and dead: "\<And>g. matches r (CHR ''r'' # z, g) = []"
  shows "stops (Seq (lit ''rop'') r) (CHR ''p'' # CHR ''r'' # z)"
  unfolding stops_def
proof (intro allI)
  fix u g
  let ?z = "CHR ''p'' # CHR ''r'' # z"
  show "matches (Seq (lit ''rop'') r) (u @ ?z, g) = map (ahead ?z) (matches (Seq (lit ''rop'') r) (u, g))"
  proof (cases "3 \<le> length u")
    case True
    then show ?thesis
      unfolding matches_lit_Seq using stopsD[OF r, of "drop (length ''rop'') u" g] by simp
  next
    case False
    then consider "u = []" | a where "u = [a]" | a b where "u = [a, b]"
      by (cases u; cases "tl u"; cases "tl (tl u)") auto
    then show ?thesis
    proof cases
      case 1
      then show ?thesis unfolding matches_lit_Seq by simp
    next
      case 2
      then show ?thesis unfolding matches_lit_Seq by simp
    next
      case 3
      then show ?thesis unfolding matches_lit_Seq using dead by simp
    qed
  qed
qed

lemma match_at_stops:
  assumes "matches r (u @ z, Map.empty) = map (ahead z) (matches r (u, Map.empty))"
  shows "match_at r (u @ z) = match_at r u"
proof (cases "matches r (u, Map.empty)")
  case Nil
  with assms show ?thesis by (simp add: match_at_def)
next
  case (Cons x xs)
  obtain v g where "x = (v, g)" by (cases x)
  with Cons assms show ?thesis by (simp add: match_at_def ahead_pair)
qed

lemma scan_stops:
  assumes cut: "\<And>u. u \<noteq> [] \<Longrightarrow> match_at r (u @ z) = match_at r u"
  shows "k \<le> length pre \<Longrightarrow> scan r k (pre @ z) = scan r k pre @ scan r 0 z"
proof (induction pre arbitrary: k)
  case Nil
  then show ?case by simp
next
  case (Cons c pre)
  show ?case
  proof (cases "0 < k")
    case True
    with Cons.prems have "k - 1 \<le> length pre" by simp
    with True Cons.IH show ?thesis by simp
  next
    case False
    have same: "match_at r (c # pre @ z) = match_at r (c # pre)"
      using cut[of "c # pre"] by simp
    show ?thesis
    proof (cases "match_at r (c # pre)")
      case None
      with False same Cons.IH[of 0] show ?thesis by simp
    next
      case (Some m)
      then obtain rest where "c # pre = group0 m @ rest" using match_at_prefix by blast
      then have "length (group0 m) \<le> Suc (length pre)"
        by (metis length_Cons length_append le_add1)
      then have "length (group0 m) - 1 \<le> length pre" by simp
      with False same Some Cons.IH show ?thesis by simp
    qed
  qed
qed

text \<open>A pattern that cannot read the letter: the scan steps over it.\<close>

lemma finditer_over:
  assumes "stops r (c # z)" and "match_at r [] = None"
  shows "finditer r (pre @ c # z) = finditer r pre @ finditer r z"
proof -
  have cut: "match_at r (u @ c # z) = match_at r u" for u
    by (rule match_at_stops) (rule stopsD[OF assms(1)])
  have "scan r 0 (pre @ c # z) = scan r 0 pre @ scan r 0 (c # z)"
    by (rule scan_stops) (simp_all add: cut)
  moreover have "match_at r (c # z) = None" using cut[of "[]"] assms(2) by simp
  ultimately show ?thesis by (simp add: finditer_def)
qed

text \<open>A pattern that begins with the letter, in either case.\<close>

lemma finditer_first:
  assumes c1: "accepts a c1" and c2: "accepts a c2"
    and s1: "stops r (c1 # z)" and s2: "stops r (c2 # z)"
  shows "map groups (finditer (Seq (One a) r) (pre @ c1 # z)) =
         map groups (finditer (Seq (One a) r) (pre @ c2 # z))"
proof -
  have cut: "match_at (Seq (One a) r) (u @ c # z) = match_at (Seq (One a) r) u"
    if "u \<noteq> []" and "stops r (c # z)" for u c
  proof (rule match_at_stops)
    from that(1) obtain d ds where u: "u = d # ds" by (cases u) auto
    show "matches (Seq (One a) r) (u @ c # z, Map.empty) =
          map (ahead (c # z)) (matches (Seq (One a) r) (u, Map.empty))"
      unfolding u using stopsD[OF that(2), of ds Map.empty] by simp
  qed
  have "scan (Seq (One a) r) 0 (pre @ c1 # z) =
        scan (Seq (One a) r) 0 pre @ scan (Seq (One a) r) 0 (c1 # z)"
    by (rule scan_stops) (simp_all add: cut s1)
  moreover have "scan (Seq (One a) r) 0 (pre @ c2 # z) =
        scan (Seq (One a) r) 0 pre @ scan (Seq (One a) r) 0 (c2 # z)"
    by (rule scan_stops) (simp_all add: cut s2)
  moreover have "map groups (scan (Seq (One a) r) 0 (c1 # z)) =
                 map groups (scan (Seq (One a) r) 0 (c2 # z))"
    using c1 c2 by (rule scan_One_alike)
  ultimately show ?thesis by (simp add: finditer_def)
qed

subsection \<open>The first letter of a keyword anywhere in a text\<close>

lemma lettersD: "letters w \<Longrightarrow> \<forall>d \<in> set w. is_word d \<and> \<not> is_digit d"
  by (simp add: letters_def list_all_iff)

lemma word_endD: "word_end t \<Longrightarrow> t = [] \<or> \<not> is_word (hd t)"
  by (cases t) (simp_all add: word_end_def)

lemma stops_docket:
  assumes run: "\<forall>d \<in> set (c # y). is_word d \<and> \<not> is_digit d" and t: "t = [] \<or> \<not> is_word (hd t)"
    and rej: "\<forall>a \<in> atoms_of session \<union> atoms_of page_marker. \<not> accepts a c"
  shows "stops (Seq (Group 1 (seqs [session, Plus Word, Plus Digit])) (Seq page_marker (seqs [])))
           (c # y @ t)"
  unfolding seqs_Cons
proof (rule stops_Seq)
  have "stops (seqs []) (c # y @ t)" by (simp add: seqs_def stops_Eps)
  with run t have "stops (Seq (Plus Word) (Seq (Plus Digit) (seqs []))) (c # y @ t)"
    by (rule stops_word_digit)
  moreover have "stops session (c # y @ t)" using rej by (simp add: stops_atoms)
  ultimately show "stops (Group 1 (Seq session (Seq (Plus Word) (Seq (Plus Digit) (seqs [])))))
      (c # y @ t)"
    by (simp add: stops_Group stops_Seq)
  have "stops page_marker (c # y @ t)" using rej by (simp add: stops_atoms)
  moreover have "stops (seqs []) (c # y @ t)" by (simp add: seqs_def stops_Eps)
  ultimately show "stops (Seq page_marker (seqs [])) (c # y @ t)" by (rule stops_Seq)
qed

lemma no_empty_match:
  "match_at nja_re [] = None" "match_at prop_re [] = None" "match_at sou_re [] = None"
  "match_at bet_re [] = None" "match_at mot_re [] = None"
  by (simp_all add: match_at_def nja_re_def prop_re_def sou_re_def bet_re_def mot_re_def
        seqs_def lit_def)

lemma other_atoms:
  "\<forall>a \<in> atoms_of session \<union> atoms_of page_marker.
     \<not> accepts a CHR ''p'' \<and> \<not> accepts a CHR ''P'' \<and> \<not> accepts a CHR ''b'' \<and>
     \<not> accepts a CHR ''B'' \<and> \<not> accepts a CHR ''m'' \<and> \<not> accepts a CHR ''M''"
  by (simp add: session_def page_marker_def seqs_def lit_def is_space_def is_digit_def)

lemma nja_rejects:
  "c \<in> set ''pPbBmM'' \<Longrightarrow> \<forall>a \<in> atoms_of nja_re. \<not> accepts a c"
  by (auto simp: nja_re_def seqs_def lit_def is_space_def is_digit_def)

lemma sou_rejects:
  "c \<in> set ''pPbBmM'' \<Longrightarrow> \<forall>a \<in> atoms_of sou_re. \<not> accepts a c"
  by (auto simp: sou_re_def seqs_def lit_def page_marker_def is_space_def is_digit_def)

lemma prop_rejects:
  "c \<in> set ''bBmM'' \<Longrightarrow> \<forall>a \<in> atoms_of prop_re. \<not> accepts a c"
  by (auto simp: prop_re_def seqs_def lit_def session_def page_marker_def is_space_def is_digit_def)

lemma mot_rejects:
  "c \<in> set ''pPbB'' \<Longrightarrow> \<forall>a \<in> atoms_of mot_re. \<not> accepts a c"
  by (auto simp: mot_re_def seqs_def lit_def session_def page_marker_def is_space_def is_digit_def)

lemma umlaut_chars:
  "char_of (195 :: nat) \<notin> set ''pPbBmM''" "char_of (164 :: nat) \<notin> set ''pPbBmM''"
  by code_simp+

lemma over_atoms:
  assumes "\<forall>a \<in> atoms_of r. \<not> accepts a c1" and "\<forall>a \<in> atoms_of r. \<not> accepts a c2"
    and "match_at r [] = None"
  shows "finditer r (pre @ c1 # z) = finditer r (pre @ c2 # z)"
proof -
  have "stops r (c1 # z)" "stops r (c2 # z)" using assms(1,2) by (simp_all add: stops_atoms)
  then show ?thesis using assms(3) by (simp add: finditer_over)
qed

lemma bet_stops:
  assumes run: "\<forall>d \<in> set (c # y). is_word d \<and> \<not> is_digit d" and t: "t = [] \<or> \<not> is_word (hd t)"
    and c: "c \<in> set ''pPbBmM''"
  shows "stops (seqs [lit ''et'',
           Opt (Alt (seqs [One (Lit (char_of (195 :: nat))), One (Lit (char_of (164 :: nat))),
                           lit ''nkande''])
                    (One (Lit CHR ''.''))),
           Plus Space, Group 1 (seqs [session, Plus Word, Plus Digit]), page_marker]) (c # y @ t)"
proof -
  have rej: "\<forall>a \<in> atoms_of session \<union> atoms_of page_marker. \<not> accepts a c"
    using c other_atoms by auto
  have d: "stops (Seq (Group 1 (seqs [session, Plus Word, Plus Digit])) (Seq page_marker (seqs [])))
      (c # y @ t)"
    using run t rej by (rule stops_docket)
  have a1: "stops (lit ''et'') (c # y @ t)"
    using c by (intro stops_atoms) (auto simp: lit_def)
  have a2: "stops (Opt (Alt (seqs [One (Lit (char_of (195 :: nat))), One (Lit (char_of (164 :: nat))),
                           lit ''nkande''])
                    (One (Lit CHR ''.'')))) (c # y @ t)"
    using c umlaut_chars by (intro stops_atoms) (auto simp: lit_def seqs_def)
  have a3: "stops (Plus Space) (c # y @ t)"
    using c by (intro stops_Plus) (auto simp: is_space_def)
  show ?thesis
    unfolding seqs_Cons[of "lit ''et''"] seqs_Cons[of "Opt _"] seqs_Cons[of "Plus Space"]
      seqs_Cons[of "Group 1 _"] seqs_Cons[of page_marker]
    by (rule stops_Seq[OF a1 stops_Seq[OF a2 stops_Seq[OF a3 d]]])
qed

lemma bet_over:
  assumes run: "\<forall>d \<in> set (c1 # y). is_word d \<and> \<not> is_digit d"
    and run2: "is_word c2 \<and> \<not> is_digit c2"
    and t: "t = [] \<or> \<not> is_word (hd t)"
    and c: "c1 \<in> set ''pPmM''" "c2 \<in> set ''pPmM''"
  shows "finditer bet_re (pre @ c1 # y @ t) = finditer bet_re (pre @ c2 # y @ t)"
proof -
  have s: "stops bet_re (c # y @ t)"
    if "\<forall>d \<in> set (c # y). is_word d \<and> \<not> is_digit d" and "c \<in> set ''pPmM''" for c
  proof -
    have "stops (One (OneOf ''bB'')) (c # y @ t)" using that(2) by (intro stops_One) auto
    moreover have "stops (seqs [lit ''et'',
           Opt (Alt (seqs [One (Lit (char_of (195 :: nat))), One (Lit (char_of (164 :: nat))),
                           lit ''nkande''])
                    (One (Lit CHR ''.''))),
           Plus Space, Group 1 (seqs [session, Plus Word, Plus Digit]), page_marker]) (c # y @ t)"
      using that(1) t by (rule bet_stops) (use that(2) in auto)
    ultimately show ?thesis unfolding bet_re_def seqs_Cons[of "One _"] by (rule stops_Seq)
  qed
  have "\<forall>d \<in> set (c2 # y). is_word d \<and> \<not> is_digit d" using run run2 by simp
  then have "stops bet_re (c2 # y @ t)" using c(2) by (rule s)
  moreover have "stops bet_re (c1 # y @ t)" using run c(1) by (rule s)
  ultimately show ?thesis
    using finditer_over[of bet_re _ "y @ t" pre] by (simp add: no_empty_match)
qed

lemma keyword_letters:
  "is_word CHR ''p'' \<and> \<not> is_digit CHR ''p''" "is_word CHR ''P'' \<and> \<not> is_digit CHR ''P''"
  "is_word CHR ''b'' \<and> \<not> is_digit CHR ''b''" "is_word CHR ''B'' \<and> \<not> is_digit CHR ''B''"
  "is_word CHR ''m'' \<and> \<not> is_digit CHR ''m''" "is_word CHR ''M'' \<and> \<not> is_digit CHR ''M''"
  "\<forall>d \<in> set ''rop''. is_word d \<and> \<not> is_digit d"
  "\<forall>d \<in> set ''et''. is_word d \<and> \<not> is_digit d"
  "\<forall>d \<in> set ''ot''. is_word d \<and> \<not> is_digit d"
  by (simp_all add: is_word_def is_digit_def)

lemma prop_own:
  "map groups (finditer prop_re (pre @ CHR ''p'' # ''rop'' @ z)) =
   map groups (finditer prop_re (pre @ CHR ''P'' # ''rop'' @ z))"
proof -
  let ?tail = "seqs [Opt (Alt (lit ''osition'') (One (Lit CHR ''.''))),
           Plus Space, Group 1 (seqs [session, Plus Digit]), page_marker]"
  have rej: "\<forall>a \<in> atoms_of ?tail. \<not> accepts a CHR ''p'' \<and> \<not> accepts a CHR ''P''"
    by (simp add: seqs_def lit_def session_def page_marker_def is_space_def is_digit_def)
  have dead: "matches ?tail (CHR ''r'' # CHR ''o'' # CHR ''p'' # z, g) = []" for g
    by (simp add: seqs_def lit_def is_space_def)
  have "stops ?tail (CHR ''p'' # CHR ''r'' # CHR ''o'' # CHR ''p'' # z)"
    using rej by (intro stops_atoms) simp
  then have low: "stops (Seq (lit ''rop'') ?tail) (CHR ''p'' # CHR ''r'' # CHR ''o'' # CHR ''p'' # z)"
    using dead by (rule stops_rop)
  have "\<forall>a \<in> atoms_of (Seq (lit ''rop'') ?tail). \<not> accepts a CHR ''P''"
    using rej by (simp add: lit_def)
  then have up: "stops (Seq (lit ''rop'') ?tail) (CHR ''P'' # CHR ''r'' # CHR ''o'' # CHR ''p'' # z)"
    by (intro stops_atoms) simp
  have "map groups (finditer (Seq (One (OneOf ''pP'')) (Seq (lit ''rop'') ?tail))
            (pre @ CHR ''p'' # CHR ''r'' # CHR ''o'' # CHR ''p'' # z)) =
        map groups (finditer (Seq (One (OneOf ''pP'')) (Seq (lit ''rop'') ?tail))
            (pre @ CHR ''P'' # CHR ''r'' # CHR ''o'' # CHR ''p'' # z))"
    by (rule finditer_first[OF _ _ low up]) simp_all
  then show ?thesis
    unfolding prop_re_def seqs_Cons[of "One _"] seqs_Cons[of "lit _"] by simp
qed

lemma mot_own:
  "map groups (finditer mot_re (pre @ CHR ''m'' # z)) =
   map groups (finditer mot_re (pre @ CHR ''M'' # z))"
proof -
  let ?tail = "seqs [lit ''ot'', Opt (Alt (lit ''ion'') (One (Lit CHR ''.''))),
           Plus Space, Group 1 (seqs [session, Rep 2 Digit]), page_marker]"
  have rej: "\<forall>a \<in> atoms_of ?tail. \<not> accepts a CHR ''m'' \<and> \<not> accepts a CHR ''M''"
    by (simp add: seqs_def lit_def session_def page_marker_def is_space_def is_digit_def)
  have low: "stops ?tail (CHR ''m'' # z)" using rej by (intro stops_atoms) simp
  have up: "stops ?tail (CHR ''M'' # z)" using rej by (intro stops_atoms) simp
  have "map groups (finditer (Seq (One (OneOf ''mM'')) ?tail) (pre @ CHR ''m'' # z)) =
        map groups (finditer (Seq (One (OneOf ''mM'')) ?tail) (pre @ CHR ''M'' # z))"
    by (rule finditer_first[OF _ _ low up]) simp_all
  then show ?thesis
    unfolding mot_re_def seqs_Cons[of "One _"] by simp
qed

lemma bet_own:
  assumes run: "\<forall>d \<in> set w. is_word d \<and> \<not> is_digit d" and t: "t = [] \<or> \<not> is_word (hd t)"
  shows "map groups (finditer bet_re (pre @ CHR ''b'' # ''et'' @ w @ t)) =
         map groups (finditer bet_re (pre @ CHR ''B'' # ''et'' @ w @ t))"
proof -
  let ?tail = "seqs [lit ''et'',
           Opt (Alt (seqs [One (Lit (char_of (195 :: nat))), One (Lit (char_of (164 :: nat))),
                           lit ''nkande''])
                    (One (Lit CHR ''.''))),
           Plus Space, Group 1 (seqs [session, Plus Word, Plus Digit]), page_marker]"
  have r1: "\<forall>d \<in> set (CHR ''b'' # ''et'' @ w). is_word d \<and> \<not> is_digit d"
    using run keyword_letters by simp
  have r2: "\<forall>d \<in> set (CHR ''B'' # ''et'' @ w). is_word d \<and> \<not> is_digit d"
    using run keyword_letters by simp
  have low: "stops ?tail (CHR ''b'' # (''et'' @ w) @ t)" using r1 t by (rule bet_stops) simp
  have up: "stops ?tail (CHR ''B'' # (''et'' @ w) @ t)" using r2 t by (rule bet_stops) simp
  have "map groups (finditer (Seq (One (OneOf ''bB'')) ?tail) (pre @ CHR ''b'' # (''et'' @ w) @ t)) =
        map groups (finditer (Seq (One (OneOf ''bB'')) ?tail) (pre @ CHR ''B'' # (''et'' @ w) @ t))"
    by (rule finditer_first[OF _ _ low up]) simp_all
  then show ?thesis
    unfolding bet_re_def seqs_Cons[of "One _"] by simp
qed

lemma prop_anywhere:
  assumes "letters w" and "word_end t"
  shows "citations_of_text (pre @ CHR ''p'' # ''rop'' @ w @ t) =
         citations_of_text (pre @ CHR ''P'' # ''rop'' @ w @ t)"
proof -
  have run: "\<forall>d \<in> set w. is_word d \<and> \<not> is_digit d" using assms(1) by (rule lettersD)
  have t: "t = [] \<or> \<not> is_word (hd t)" using assms(2) by (rule word_endD)
  let ?lo = "pre @ CHR ''p'' # ''rop'' @ w @ t" and ?up = "pre @ CHR ''P'' # ''rop'' @ w @ t"
  have nja: "finditer nja_re ?lo = finditer nja_re ?up"
    by (rule over_atoms) (simp_all add: nja_rejects no_empty_match)
  have sou: "finditer sou_re ?lo = finditer sou_re ?up"
    by (rule over_atoms) (simp_all add: sou_rejects no_empty_match)
  have mot: "finditer mot_re ?lo = finditer mot_re ?up"
    by (rule over_atoms) (simp_all add: mot_rejects no_empty_match)
  have "finditer bet_re (pre @ CHR ''p'' # (''rop'' @ w) @ t) =
        finditer bet_re (pre @ CHR ''P'' # (''rop'' @ w) @ t)"
    by (rule bet_over) (use run t keyword_letters in simp_all)
  then have bet: "finditer bet_re ?lo = finditer bet_re ?up" by simp
  have "map groups (finditer prop_re ?lo) = map groups (finditer prop_re ?up)"
    by (rule prop_own)
  then have bill: "prop_pairs ?lo = prop_pairs ?up" by (simp only: prop_pairs_groups)
  show ?thesis
    unfolding citations_of_text_def nja_pairs_def sou_pairs_def bet_pairs_def mot_pairs_def
      nja sou mot bet bill ..
qed

lemma bet_anywhere:
  assumes "letters w" and "word_end t"
  shows "citations_of_text (pre @ CHR ''b'' # ''et'' @ w @ t) =
         citations_of_text (pre @ CHR ''B'' # ''et'' @ w @ t)"
proof -
  have run: "\<forall>d \<in> set w. is_word d \<and> \<not> is_digit d" using assms(1) by (rule lettersD)
  have t: "t = [] \<or> \<not> is_word (hd t)" using assms(2) by (rule word_endD)
  let ?lo = "pre @ CHR ''b'' # ''et'' @ w @ t" and ?up = "pre @ CHR ''B'' # ''et'' @ w @ t"
  have nja: "finditer nja_re ?lo = finditer nja_re ?up"
    by (rule over_atoms) (simp_all add: nja_rejects no_empty_match)
  have sou: "finditer sou_re ?lo = finditer sou_re ?up"
    by (rule over_atoms) (simp_all add: sou_rejects no_empty_match)
  have mot: "finditer mot_re ?lo = finditer mot_re ?up"
    by (rule over_atoms) (simp_all add: mot_rejects no_empty_match)
  have bill: "finditer prop_re ?lo = finditer prop_re ?up"
    by (rule over_atoms) (simp_all add: prop_rejects no_empty_match)
  have "map groups (finditer bet_re ?lo) = map groups (finditer bet_re ?up)"
    using run t by (rule bet_own)
  then have bet: "bet_pairs ?lo = bet_pairs ?up" by (simp only: bet_pairs_groups)
  show ?thesis
    unfolding citations_of_text_def nja_pairs_def sou_pairs_def prop_pairs_def mot_pairs_def
      nja sou mot bet bill ..
qed

lemma mot_anywhere:
  assumes "letters w" and "word_end t"
  shows "citations_of_text (pre @ CHR ''m'' # ''ot'' @ w @ t) =
         citations_of_text (pre @ CHR ''M'' # ''ot'' @ w @ t)"
proof -
  have run: "\<forall>d \<in> set w. is_word d \<and> \<not> is_digit d" using assms(1) by (rule lettersD)
  have t: "t = [] \<or> \<not> is_word (hd t)" using assms(2) by (rule word_endD)
  let ?lo = "pre @ CHR ''m'' # ''ot'' @ w @ t" and ?up = "pre @ CHR ''M'' # ''ot'' @ w @ t"
  have nja: "finditer nja_re ?lo = finditer nja_re ?up"
    by (rule over_atoms) (simp_all add: nja_rejects no_empty_match)
  have sou: "finditer sou_re ?lo = finditer sou_re ?up"
    by (rule over_atoms) (simp_all add: sou_rejects no_empty_match)
  have bill: "finditer prop_re ?lo = finditer prop_re ?up"
    by (rule over_atoms) (simp_all add: prop_rejects no_empty_match)
  have "finditer bet_re (pre @ CHR ''m'' # (''ot'' @ w) @ t) =
        finditer bet_re (pre @ CHR ''M'' # (''ot'' @ w) @ t)"
    by (rule bet_over) (use run t keyword_letters in simp_all)
  then have bet: "finditer bet_re ?lo = finditer bet_re ?up" by simp
  have "map groups (finditer mot_re ?lo) = map groups (finditer mot_re ?up)"
    by (rule mot_own)
  then have mot: "mot_pairs ?lo = mot_pairs ?up" by (simp only: mot_pairs_groups)
  show ?thesis
    unfolding citations_of_text_def nja_pairs_def sou_pairs_def bet_pairs_def prop_pairs_def
      nja sou mot bet bill ..
qed

text \<open>
  Claim C7, as the code has it. The patterns are compiled without
  \<open>re.IGNORECASE\<close>: every match of the NJA pattern begins with \<open>NJA\<close> and every
  match of the SOU pattern with \<open>SOU\<close>, in upper case; a match of the bill,
  report and motion patterns begins with \<open>prop\<close>, \<open>bet\<close> and \<open>mot\<close> in lower
  case but for the first letter, which the sets \<open>[pP]\<close>, \<open>[bB]\<close> and \<open>[mM]\<close>
  accept in both cases. The case of that first letter changes nothing, wherever
  the keyword stands: for every text \<open>pre\<close> before it, when the word that the
  keyword begins goes on with letters only (\<open>w\<close>) up to its end (\<open>t\<close>), the
  text yields the same pairs with the letter in either case. So does a text
  that begins with the letter, whatever follows, and the match tried at the
  letter has the same groups and the same length in either case.
\<close>

theorem keyword_case:
  "(\<forall>m \<in> set (finditer nja_re text). \<exists>u. group0 m = ''NJA'' @ u) \<and>
   (\<forall>m \<in> set (finditer sou_re text). \<exists>u. group0 m = ''SOU'' @ u) \<and>
   (\<forall>m \<in> set (finditer prop_re text).
      \<exists>c u. (c = CHR ''p'' \<or> c = CHR ''P'') \<and> group0 m = c # ''rop'' @ u) \<and>
   (\<forall>m \<in> set (finditer bet_re text).
      \<exists>c u. (c = CHR ''b'' \<or> c = CHR ''B'') \<and> group0 m = c # ''et'' @ u) \<and>
   (\<forall>m \<in> set (finditer mot_re text).
      \<exists>c u. (c = CHR ''m'' \<or> c = CHR ''M'') \<and> group0 m = c # ''ot'' @ u) \<and>
   (letters w \<longrightarrow> word_end t \<longrightarrow>
      citations_of_text (pre @ CHR ''p'' # ''rop'' @ w @ t) =
      citations_of_text (pre @ CHR ''P'' # ''rop'' @ w @ t)) \<and>
   (letters w \<longrightarrow> word_end t \<longrightarrow>
      citations_of_text (pre @ CHR ''b'' # ''et'' @ w @ t) =
      citations_of_text (pre @ CHR ''B'' # ''et'' @ w @ t)) \<and>
   (letters w \<longrightarrow> word_end t \<longrightarrow>
      citations_of_text (pre @ CHR ''m'' # ''ot'' @ w @ t) =
      citations_of_text (pre @ CHR ''M'' # ''ot'' @ w @ t)) \<and>
   citations_of_text (CHR ''p'' # rest) = citations_of_text (CHR ''P'' # rest) \<and>
   citations_of_text (CHR ''b'' # rest) = citations_of_text (CHR ''B'' # rest) \<and>
   citations_of_text (CHR ''m'' # rest) = citations_of_text (CHR ''M'' # rest) \<and>
   attempt prop_re (CHR ''p'' # rest) = attempt prop_re (CHR ''P'' # rest) \<and>
   attempt bet_re (CHR ''b'' # rest) = attempt bet_re (CHR ''B'' # rest) \<and>
   attempt mot_re (CHR ''m'' # rest) = attempt mot_re (CHR ''M'' # rest)"
proof (intro conjI ballI impI)
  fix m assume "m \<in> set (finditer nja_re text)"
  then obtain t where "match_at nja_re t = Some m" using finditer_match_at by blast
  then show "\<exists>u. group0 m = ''NJA'' @ u" by (rule nja_match_prefix)
next
  fix m assume "m \<in> set (finditer sou_re text)"
  then obtain t where "match_at sou_re t = Some m" using finditer_match_at by blast
  then obtain u v where "group0 m = ''SOU'' @ u @ v" using sou_match_prefix by blast
  then show "\<exists>u. group0 m = ''SOU'' @ u" by blast
next
  fix m assume "m \<in> set (finditer prop_re text)"
  then obtain t where "match_at prop_re t = Some m" using finditer_match_at by blast
  then obtain c u where "accepts (OneOf ''pP'') c" "group0 m = c # ''rop'' @ u"
    using prop_match_prefix by blast
  then show "\<exists>c u. (c = CHR ''p'' \<or> c = CHR ''P'') \<and> group0 m = c # ''rop'' @ u"
    by auto
next
  fix m assume "m \<in> set (finditer bet_re text)"
  then obtain t where "match_at bet_re t = Some m" using finditer_match_at by blast
  then obtain c u where "accepts (OneOf ''bB'') c" "group0 m = c # ''et'' @ u"
    using bet_match_prefix by blast
  then show "\<exists>c u. (c = CHR ''b'' \<or> c = CHR ''B'') \<and> group0 m = c # ''et'' @ u"
    by auto
next
  fix m assume "m \<in> set (finditer mot_re text)"
  then obtain t where "match_at mot_re t = Some m" using finditer_match_at by blast
  then obtain c u where "accepts (OneOf ''mM'') c" "group0 m = c # ''ot'' @ u"
    using mot_match_prefix by blast
  then show "\<exists>c u. (c = CHR ''m'' \<or> c = CHR ''M'') \<and> group0 m = c # ''ot'' @ u"
    by auto
next
  assume "letters w" and "word_end t"
  then show "citations_of_text (pre @ CHR ''p'' # ''rop'' @ w @ t) =
             citations_of_text (pre @ CHR ''P'' # ''rop'' @ w @ t)"
    by (rule prop_anywhere)
next
  assume "letters w" and "word_end t"
  then show "citations_of_text (pre @ CHR ''b'' # ''et'' @ w @ t) =
             citations_of_text (pre @ CHR ''B'' # ''et'' @ w @ t)"
    by (rule bet_anywhere)
next
  assume "letters w" and "word_end t"
  then show "citations_of_text (pre @ CHR ''m'' # ''ot'' @ w @ t) =
             citations_of_text (pre @ CHR ''M'' # ''ot'' @ w @ t)"
    by (rule mot_anywhere)
next
  show "citations_of_text (CHR ''p'' # rest) = citations_of_text (CHR ''P'' # rest)"
    by (rule prop_first_letter)
  show "citations_of_text (CHR ''b'' # rest) = citations_of_text (CHR ''B'' # rest)"
    by (rule bet_first_letter)
  show "citations_of_text (CHR ''m'' # rest) = citations_of_text (CHR ''M'' # rest)"
    by (rule mot_first_letter)
  show "attempt prop_re (CHR ''p'' # rest) = attempt prop_re (CHR ''P'' # rest)"
    by (rule first_letter_attempts)
  show "attempt bet_re (CHR ''b'' # rest) = attempt bet_re (CHR ''B'' # rest)"
    by (rule first_letter_attempts)
  show "attempt mot_re (CHR ''m'' # rest) = attempt mot_re (CHR ''M'' # rest)"
    by (rule first_letter_attempts)
qed

lemma family_examples:
  "map group0 (finditer nja_re ''NJA 2019 s. 45'') = [''NJA 2019 s. 45'']"
  "map group0 (finditer sou_re ''SOU 2001:3'') = [''SOU 2001:3'']"
  "map group0 (finditer prop_re ''prop. 2005/06:55'') = [''prop. 2005/06:55'']"
  "map group0 (finditer bet_re ''Bet. 2001/02:JuU12'') = [''Bet. 2001/02:JuU12'']"
  "map group0 (finditer mot_re ''mot. 2001/02:12'') = [''mot. 2001/02:12'']"
  by code_simp+

lemma map_singleton_mem: "map f xs = [y] \<Longrightarrow> \<exists>x \<in> set xs. f x = y"
  by (cases xs) auto

lemma occurrence_examples:
  "letters ''osition''" "word_end '' 2005/06:55 s. 12''"
  "letters []" "word_end ''. 2001/02:JuU12''"
  "letters ''ion''" "word_end '' 2001/02:12''"
  by (simp_all add: letters_def word_end_def is_word_def is_digit_def)

theorem keyword_case_witness:
  "map group0 (finditer nja_re ''NJA 2019 s. 45'') = [''NJA 2019 s. 45''] \<and>
   (\<exists>u. ''NJA 2019 s. 45'' = ''NJA'' @ u) \<and>
   map group0 (finditer sou_re ''SOU 2001:3'') = [''SOU 2001:3''] \<and>
   (\<exists>u. ''SOU 2001:3'' = ''SOU'' @ u) \<and>
   map group0 (finditer prop_re ''prop. 2005/06:55'') = [''prop. 2005/06:55''] \<and>
   (\<exists>c u. (c = CHR ''p'' \<or> c = CHR ''P'') \<and> ''prop. 2005/06:55'' = c # ''rop'' @ u) \<and>
   map group0 (finditer bet_re ''Bet. 2001/02:JuU12'') = [''Bet. 2001/02:JuU12''] \<and>
   (\<exists>c u. (c = CHR ''b'' \<or> c = CHR ''B'') \<and> ''Bet. 2001/02:JuU12'' = c # ''et'' @ u) \<and>
   map group0 (finditer mot_re ''mot. 2001/02:12'') = [''mot. 2001/02:12''] \<and>
   (\<exists>c u. (c = CHR ''m'' \<or> c = CHR ''M'') \<and> ''mot. 2001/02:12'' = c # ''ot'' @ u) \<and>
   letters ''osition'' \<and> word_end '' 2005/06:55 s. 12'' \<and>
   citations_of_text ''Se proposition 2005/06:55 s. 12'' =
     citations_of_text ''Se Proposition 2005/06:55 s. 12'' \<and>
   letters [] \<and> word_end ''. 2001/02:JuU12'' \<and>
   citations_of_text ''jfr bet. 2001/02:JuU12'' = citations_of_text ''jfr Bet. 2001/02:JuU12'' \<and>
   letters ''ion'' \<and> word_end '' 2001/02:12'' \<and>
   citations_of_text ''och motion 2001/02:12'' = citations_of_text ''och Motion 2001/02:12'' \<and>
   citations_of_text ''prop. 2005/06:55 s. 12'' = citations_of_text ''Prop. 2005/06:55 s. 12''"
proof -
  obtain m1 where "m1 \<in> set (finditer nja_re ''NJA 2019 s. 45'')" "group0 m1 = ''NJA 2019 s. 45''"
    using map_singleton_mem[OF family_examples(1)] by blast
  with keyword_case[of "''NJA 2019 s. 45''"]
  have w1: "\<exists>u. ''NJA 2019 s. 45'' = ''NJA'' @ u" by metis
  obtain m2 where "m2 \<in> set (finditer sou_re ''SOU 2001:3'')" "group0 m2 = ''SOU 2001:3''"
    using map_singleton_mem[OF family_examples(2)] by blast
  with keyword_case[of "''SOU 2001:3''"]
  have w2: "\<exists>u. ''SOU 2001:3'' = ''SOU'' @ u" by metis
  obtain m3 where "m3 \<in> set (finditer prop_re ''prop. 2005/06:55'')" "group0 m3 = ''prop. 2005/06:55''"
    using map_singleton_mem[OF family_examples(3)] by blast
  with keyword_case[of "''prop. 2005/06:55''"]
  have w3: "\<exists>c u. (c = CHR ''p'' \<or> c = CHR ''P'') \<and> ''prop. 2005/06:55'' = c # ''rop'' @ u"
    by metis
  obtain m4 where "m4 \<in> set (finditer bet_re ''Bet. 2001/02:JuU12'')" "group0 m4 = ''Bet. 2001/02:JuU12''"
    using map_singleton_mem[OF family_examples(4)] by blast
  with keyword_case[of "''Bet. 2001/02:JuU12''"]
  have w4: "\<exists>c u. (c = CHR ''b'' \<or> c = CHR ''B'') \<and> ''Bet. 2001/02:JuU12'' = c # ''et'' @ u"
    by metis
  obtain m5 where "m5 \<in> set (finditer mot_re ''mot. 2001/02:12'')" "group0 m5 = ''mot. 2001/02:12''"
    using map_singleton_mem[OF family_examples(5)] by blast
  with keyword_case[of "''mot. 2001/02:12''"]
  have w5: "\<exists>c u. (c = CHR ''m'' \<or> c = CHR ''M'') \<and> ''mot. 2001/02:12'' = c # ''ot'' @ u"
    by metis
  have "citations_of_text (''Se '' @ CHR ''p'' # ''rop'' @ ''osition'' @ '' 2005/06:55 s. 12'') =
        citations_of_text (''Se '' @ CHR ''P'' # ''rop'' @ ''osition'' @ '' 2005/06:55 s. 12'')"
    using keyword_case[where pre = "''Se ''" and w = "''osition''" and t = "'' 2005/06:55 s. 12''"]
      occurrence_examples by blast
  then have w6: "citations_of_text ''Se proposition 2005/06:55 s. 12'' =
                 citations_of_text ''Se Proposition 2005/06:55 s. 12''" by simp
  have "citations_of_text (''jfr '' @ CHR ''b'' # ''et'' @ [] @ ''. 2001/02:JuU12'') =
        citations_of_text (''jfr '' @ CHR ''B'' # ''et'' @ [] @ ''. 2001/02:JuU12'')"
    using keyword_case[where pre = "''jfr ''" and w = "[]" and t = "''. 2001/02:JuU12''"]
      occurrence_examples by blast
  then have w7: "citations_of_text ''jfr bet. 2001/02:JuU12'' =
                 citations_of_text ''jfr Bet. 2001/02:JuU12''" by simp
  have "citations_of_text (''och '' @ CHR ''m'' # ''ot'' @ ''ion'' @ '' 2001/02:12'') =
        citations_of_text (''och '' @ CHR ''M'' # ''ot'' @ ''ion'' @ '' 2001/02:12'')"
    using keyword_case[where pre = "''och ''" and w = "''ion''" and t = "'' 2001/02:12''"]
      occurrence_examples by blast
  then have w8: "citations_of_text ''och motion 2001/02:12'' =
                 citations_of_text ''och Motion 2001/02:12''" by simp
  have w9: "citations_of_text (CHR ''p'' # ''rop. 2005/06:55 s. 12'') =
            citations_of_text (CHR ''P'' # ''rop. 2005/06:55 s. 12'')"
    using keyword_case[where rest = "''rop. 2005/06:55 s. 12''"] by blast
  show ?thesis
    using family_examples occurrence_examples w1 w2 w3 w4 w5 w6 w7 w8 w9 by simp
qed

text \<open>
  The claim as it is worded has every keyword matched without regard to case:
  the bill keyword in upper case and the reporter keyword in lower case are
  not matched, and the pairs extracted change. Where the letters of a keyword
  run into digits they can stand in the docket reference of a report, which
  the key keeps as it is written: there the case of the first letter changes
  the key.
\<close>

theorem keyword_case_counterexample:
  "set (citations_of_text ''PROP. 2005/06:55 s. 12'') \<noteq>
     set (citations_of_text ''Prop. 2005/06:55 s. 12'') \<and>
   set (citations_of_text ''nja 2019 s. 45'') \<noteq> set (citations_of_text ''NJA 2019 s. 45'') \<and>
   set (citations_of_text ''bet. 2005/06:prop12'') \<noteq> set (citations_of_text ''bet. 2005/06:Prop12'')"
proof -
  have "citations_of_text ''PROP. 2005/06:55 s. 12'' = []" by code_simp
  moreover have "citations_of_text ''Prop. 2005/06:55 s. 12'' = [(''Prop. 2005/06:55'', Some ''12'')]"
    by code_simp
  moreover have "citations_of_text ''nja 2019 s. 45'' = []" by code_simp
  moreover have "citations_of_text ''NJA 2019 s. 45'' = [(''NJA 2019 s. 45'', None)]"
    by code_simp
  moreover have "citations_of_text ''bet. 2005/06:prop12'' = [(''bet. 2005/06:prop12'', None)]"
    by code_simp
  moreover have "citations_of_text ''bet. 2005/06:Prop12'' = [(''bet. 2005/06:Prop12'', None)]"
    by code_simp
  ultimately show ?thesis by simp
qed

section \<open>The pages of the pairs and the aggregation\<close>

lemma rep_ends_length: "rest \<in> set (rep_ends n a s) \<Longrightarrow> length rest + n = length s"
proof (induction n a s rule: rep_ends.induct)
  case (1 a s)
  then show ?case by simp
next
  case (2 n a)
  then show ?case by simp
next
  case (3 n a c cs)
  then have "accepts a c" and "rest \<in> set (rep_ends n a cs)" by (simp_all split: if_splits)
  then have "length rest + n = length cs" using "3.IH" by blast
  then show ?case by simp
qed

lemma matches_min_len:
  "(rest, g') \<in> set (matches r (s, g)) \<Longrightarrow> length rest + min_len r \<le> length s"
proof (induction r arbitrary: s g rest g')
  case Eps
  then show ?case by simp
next
  case (One a)
  then show ?case by (cases s) (simp_all split: if_splits)
next
  case (Seq r1 r2)
  from Seq.prems obtain mid gm where
    "(mid, gm) \<in> set (matches r1 (s, g))" "(rest, g') \<in> set (matches r2 (mid, gm))"
    by auto
  then have "length mid + min_len r1 \<le> length s" "length rest + min_len r2 \<le> length mid"
    using Seq.IH by blast+
  then show ?case by simp
next
  case (Alt r1 r2)
  from Alt.prems have "(rest, g') \<in> set (matches r1 (s, g)) \<or> (rest, g') \<in> set (matches r2 (s, g))"
    by simp
  then show ?case using Alt.IH by fastforce
next
  case (Opt r)
  from Opt.prems obtain m where "s = m @ rest" using matches_suffix by blast
  then show ?case by simp
next
  case (Star a)
  from Star.prems obtain m where "s = m @ rest" using matches_suffix by blast
  then show ?case by simp
next
  case (Plus a)
  show ?case
  proof (cases s)
    case Nil
    with Plus show ?thesis by simp
  next
    case (Cons c cs)
    with Plus have "rest \<in> set (star_ends a cs)" by (auto split: if_splits)
    then obtain m where "cs = m @ rest" using star_ends_suffix by blast
    with Cons show ?thesis by simp
  qed
next
  case (Rep n a)
  then have "rest \<in> set (rep_ends n a s)" by auto
  then show ?case using rep_ends_length by fastforce
next
  case (Group i r)
  then obtain g0 where "(rest, g0) \<in> set (matches r (s, g))" by auto
  then show ?case using Group.IH by simp
qed

lemma matches_filled:
  "(rest, g') \<in> set (matches r (s, g)) \<Longrightarrow> filled i r \<Longrightarrow> g i \<noteq> Some [] \<Longrightarrow> g' i \<noteq> Some []"
proof (induction r arbitrary: s g rest g')
  case Eps
  then show ?case by simp
next
  case (One a)
  then show ?case by (cases s) (simp_all split: if_splits)
next
  case (Seq r1 r2)
  from Seq.prems(1) obtain mid gm where
    m1: "(mid, gm) \<in> set (matches r1 (s, g))" and m2: "(rest, g') \<in> set (matches r2 (mid, gm))"
    by auto
  from Seq.prems(2) have f: "filled i r1" "filled i r2" by simp_all
  have "gm i \<noteq> Some []" using Seq.IH(1)[OF m1 f(1) Seq.prems(3)] .
  then show ?case using Seq.IH(2)[OF m2 f(2)] by simp
next
  case (Alt r1 r2)
  from Alt.prems(1) have "(rest, g') \<in> set (matches r1 (s, g)) \<or> (rest, g') \<in> set (matches r2 (s, g))"
    by simp
  then show ?case using Alt.IH Alt.prems(2,3) by auto
next
  case (Opt r)
  from Opt.prems(1) have "(rest, g') \<in> set (matches r (s, g)) \<or> g' = g" by auto
  then show ?case using Opt.IH Opt.prems(2,3) by auto
next
  case (Star a)
  then show ?case by auto
next
  case (Plus a)
  then show ?case by (cases s) (auto split: if_splits)
next
  case (Rep n a)
  then show ?case by auto
next
  case (Group j r)
  from Group.prems(1) obtain g0 where
    m: "(rest, g0) \<in> set (matches r (s, g))" and g': "g' = g0(j \<mapsto> take (length s - length rest) s)"
    by auto
  from Group.prems(2) have f: "filled i r" and pos: "j = i \<longrightarrow> 0 < min_len r" by simp_all
  have g0: "g0 i \<noteq> Some []" using Group.IH[OF m f Group.prems(3)] .
  show ?case
  proof (cases "j = i")
    case True
    with pos have "0 < min_len r" by simp
    with matches_min_len[OF m] have "length rest < length s" by simp
    then have "take (length s - length rest) s \<noteq> []" by (cases s) simp_all
    with g' True show ?thesis by simp
  next
    case False
    with g' g0 show ?thesis by simp
  qed
qed

lemma match_at_filled:
  assumes "match_at r t = Some m" and "filled i r"
  shows "groups m i \<noteq> Some []"
proof -
  from match_atD[OF assms(1)] obtain rest g where
    "(rest, g) \<in> set (matches r (t, Map.empty))" "m = \<lparr>group0 = take (length t - length rest) t, groups = g\<rparr>"
    by blast
  then show ?thesis using matches_filled[OF _ assms(2), of rest g t Map.empty] by simp
qed

lemma finditer_filled:
  "m \<in> set (finditer r text) \<Longrightarrow> filled i r \<Longrightarrow> groups m i \<noteq> Some []"
  using finditer_match_at match_at_filled by blast

lemma filled_families: "filled 2 prop_re" "filled 2 sou_re" "filled 2 bet_re" "filled 2 mot_re"
  by (simp_all add: prop_re_def sou_re_def bet_re_def mot_re_def seqs_def lit_def session_def
        page_marker_def)

lemma pages_nonempty: "kp \<in> set (citations_of_text text) \<Longrightarrow> snd kp \<noteq> Some []"
  unfolding citations_of_text_def nja_pairs_def prop_pairs_def sou_pairs_def bet_pairs_def
    mot_pairs_def
  using finditer_filled[OF _ filled_families(1)] finditer_filled[OF _ filled_families(2)]
    finditer_filled[OF _ filled_families(3)] finditer_filled[OF _ filled_families(4)]
  by auto

text \<open>
  Claim C2: a page that the patterns yield is never the empty string, so the
  truth test \<open>if page:\<close> lets through exactly the pages that are not absent. For
  every sequence of pairs the aggregation gives a dictionary in which each key
  of the input stands exactly once; when no page of the sequence is the empty
  string, as in every sequence that the extraction yields, the set bound to a
  key is the set of the pages paired with it that are not absent, and a key
  whose pages are all absent is bound to the empty set.
\<close>

theorem aggregate_groups:
  "(\<forall>kp \<in> set (citations_of_text text). snd kp \<noteq> Some []) \<and>
   distinct (map fst (aggregate pairs)) \<and>
   fst ` set (aggregate pairs) = fst ` set pairs \<and>
   ((\<forall>kp \<in> set pairs. snd kp \<noteq> Some []) \<longrightarrow>
      (\<forall>k \<in> fst ` set pairs.
         map_of (aggregate pairs) k = Some {p. (k, Some p) \<in> set pairs}) \<and>
      (\<forall>k \<in> fst ` set pairs.
         (\<forall>kp \<in> set pairs. fst kp = k \<longrightarrow> snd kp = None) \<longrightarrow>
         map_of (aggregate pairs) k = Some {}))"
proof (intro conjI impI)
  show "\<forall>kp \<in> set (citations_of_text text). snd kp \<noteq> Some []"
    using pages_nonempty by blast
  show "distinct (map fst (aggregate pairs))"
    by (simp add: aggregate_def distinct_foldl)
  show keys: "fst ` set (aggregate pairs) = fst ` set pairs"
    by (simp add: aggregate_def keys_foldl)
  assume full: "\<forall>kp \<in> set pairs. snd kp \<noteq> Some []"
  have pages: "map_of (aggregate pairs) k = Some {p. (k, Some p) \<in> set pairs}"
    if "k \<in> fst ` set pairs" for k
  proof -
    from that keys obtain ps where ps: "map_of (aggregate pairs) k = Some ps"
      by (cases "map_of (aggregate pairs) k") (simp_all add: map_of_eq_None_iff)
    have "bound (aggregate pairs) k = pages_in pairs k"
      unfolding aggregate_def bound_foldl by (simp add: bound_def)
    moreover have "pages_in pairs k = {p. (k, Some p) \<in> set pairs}"
      using full by (fastforce simp: pages_in_def)
    ultimately show ?thesis using ps by (simp add: bound_def)
  qed
  then show "\<forall>k \<in> fst ` set pairs. map_of (aggregate pairs) k = Some {p. (k, Some p) \<in> set pairs}"
    by blast
  show "\<forall>k \<in> fst ` set pairs.
          (\<forall>kp \<in> set pairs. fst kp = k \<longrightarrow> snd kp = None) \<longrightarrow>
          map_of (aggregate pairs) k = Some {}"
  proof (intro ballI impI)
    fix k assume k: "k \<in> fst ` set pairs"
      and none: "\<forall>kp \<in> set pairs. fst kp = k \<longrightarrow> snd kp = None"
    have "{p. (k, Some p) \<in> set pairs} = {}" using none by fastforce
    with pages[OF k] show "map_of (aggregate pairs) k = Some {}" by simp
  qed
qed

theorem aggregate_groups_witness:
  "(''Prop. 2005/06:55'', Some ''12'') \<in> set (citations_of_text ''Prop. 2005/06:55 s. 12'') \<and>
   list_all (\<lambda>kp. snd kp \<noteq> Some [])
     [(''a'', Some ''1''), (''b'', None), (''a'', Some ''2''), (''a'', Some ''1'')] \<and>
   ''a'' \<in> fst ` set [(''a'', Some ''1''), (''b'', None), (''a'', Some ''2''), (''a'', Some ''1'')] \<and>
   map_of (aggregate [(''a'', Some ''1''), (''b'', None), (''a'', Some ''2''), (''a'', Some ''1'')]) ''a'' =
     Some {''1'', ''2''} \<and>
   ''b'' \<in> fst ` set [(''a'', Some ''1''), (''b'', None), (''a'', Some ''2''), (''a'', Some ''1'')] \<and>
   map_of (aggregate [(''a'', Some ''1''), (''b'', None), (''a'', Some ''2''), (''a'', Some ''1'')]) ''b'' =
     Some {}"
proof -
  let ?X = "[(''a'', Some ''1''), (''b'', None), (''a'', Some ''2''), (''a'', Some ''1'')]"
  note inst = aggregate_groups[of "''Prop. 2005/06:55 s. 12''" ?X]
  have "citations_of_text ''Prop. 2005/06:55 s. 12'' = [(''Prop. 2005/06:55'', Some ''12'')]"
    by code_simp
  then have page: "(''Prop. 2005/06:55'', Some ''12'') \<in> set (citations_of_text ''Prop. 2005/06:55 s. 12'')"
    by simp
  have "snd (''Prop. 2005/06:55'', Some ''12'') \<noteq> Some []"
    by (rule bspec[OF conjunct1[OF inst] page])
  have full: "\<forall>kp \<in> set ?X. snd kp \<noteq> Some []" by simp
  have a: "''a'' \<in> fst ` set ?X" and b: "''b'' \<in> fst ` set ?X" by simp_all
  have none: "\<forall>kp \<in> set ?X. fst kp = ''b'' \<longrightarrow> snd kp = None" by simp
  note bound = mp[OF conjunct2[OF conjunct2[OF conjunct2[OF inst]]] full]
  have "map_of (aggregate ?X) ''a'' = Some {p. (''a'', Some p) \<in> set ?X}"
    by (rule bspec[OF conjunct1[OF bound] a])
  moreover have "{p. (''a'', Some p) \<in> set ?X} = {''1'', ''2''}" by auto
  ultimately have pa: "map_of (aggregate ?X) ''a'' = Some {''1'', ''2''}" by (rule trans[OF _ arg_cong])
  have pb: "map_of (aggregate ?X) ''b'' = Some {}"
    by (rule mp[OF bspec[OF conjunct2[OF bound] b] none])
  have full': "list_all (\<lambda>kp. snd kp \<noteq> Some []) ?X" by simp
  show ?thesis by (intro conjI page full' a pa b pb)
qed

section \<open>The scenario of a bill cited with a page\<close>

lemma prop_tail_free:
  assumes "match_at prop_re t = Some m"
  shows "CHR ''P'' \<notin> set (tl (group0 m))"
  using assms[unfolded prop_re_def seqs_Cons]
  by (rule match_at_tail_chars)
     (simp add: seqs_def lit_def session_def page_marker_def is_space_def is_digit_def)

lemma prop_occurrence_found:
  assumes "post = [] \<or> \<not> is_digit (hd post)"
  shows "(''Prop. 2005/06:55'', Some ''12'') \<in>
           set (citations_of_text (pre @ ''Prop. 2005/06:55 s. 12'' @ post))"
proof -
  obtain m where m: "match_at prop_re (''Prop. 2005/06:55 s. 12'' @ post) = Some m"
    and g: "groups m 1 = Some ''2005/06:55''" "groups m 2 = Some ''12''"
    using prop_occurrence[OF assms] by blast
  have "\<exists>ms. scan prop_re 0 (pre @ CHR ''P'' # ''rop. 2005/06:55 s. 12'' @ post) =
            ms @ scan prop_re 0 (CHR ''P'' # ''rop. 2005/06:55 s. 12'' @ post)"
  proof (rule scan_reaches)
    show "CHR ''P'' \<notin> set (tl (group0 m'))" if "match_at prop_re t = Some m'" for t m'
      using that by (rule prop_tail_free)
    show "0 \<le> length pre" by simp
  qed
  then obtain ms where
    "scan prop_re 0 (pre @ CHR ''P'' # ''rop. 2005/06:55 s. 12'' @ post) =
       ms @ scan prop_re 0 (CHR ''P'' # ''rop. 2005/06:55 s. 12'' @ post)"
    by blast
  moreover have "m \<in> set (scan prop_re 0 (CHR ''P'' # ''rop. 2005/06:55 s. 12'' @ post))"
    using m by simp
  ultimately have "m \<in> set (finditer prop_re (pre @ ''Prop. 2005/06:55 s. 12'' @ post))"
    by (simp add: finditer_def)
  then have "(''Prop. '' @ group_str m 1, groups m 2) \<in>
      set (prop_pairs (pre @ ''Prop. 2005/06:55 s. 12'' @ post))"
    unfolding prop_pairs_def set_map by (rule imageI)
  moreover have "(''Prop. '' @ group_str m 1, groups m 2) = (''Prop. 2005/06:55'', Some ''12'')"
    using g by (simp add: group_str_def)
  ultimately show ?thesis by (simp add: citations_of_text_def)
qed

lemma pages_in_only:
  "q \<in> pages_in pairs k \<Longrightarrow>
   (\<forall>p. (k, Some p) \<in> set pairs \<longrightarrow> p = q) \<longrightarrow> pages_in pairs k = {q}"
  by (auto simp: pages_in_def)

text \<open>
  Claim C9, as the code has it. From a text that contains
  \<open>Prop. 2005/06:55 s. 12\<close>, with no digit right after it, extraction and
  aggregation give the key \<open>Prop. 2005/06:55\<close> with the page \<open>12\<close> in its page
  set, whatever stands before and after; the page set holds \<open>12\<close> only when the
  text cites the key with no other page, as the citation alone does. The page
  marker goes to the page set and is no part of the key.
\<close>

theorem prop_page_scenario:
  "(post = [] \<or> \<not> is_digit (hd post) \<longrightarrow>
      (\<exists>pages. map_of (aggregate (citations_of_text (pre @ ''Prop. 2005/06:55 s. 12'' @ post)))
                 ''Prop. 2005/06:55'' = Some pages \<and> ''12'' \<in> pages \<and>
         ((\<forall>p. (''Prop. 2005/06:55'', Some p) \<in>
                  set (citations_of_text (pre @ ''Prop. 2005/06:55 s. 12'' @ post)) \<longrightarrow> p = ''12'') \<longrightarrow>
          pages = {''12''}))) \<and>
   aggregate (citations_of_text ''Prop. 2005/06:55 s. 12'') = [(''Prop. 2005/06:55'', {''12''})]"
proof (intro conjI impI)
  assume post: "post = [] \<or> \<not> is_digit (hd post)"
  let ?pairs = "citations_of_text (pre @ ''Prop. 2005/06:55 s. 12'' @ post)"
  have mem: "(''Prop. 2005/06:55'', Some ''12'') \<in> set ?pairs"
    using post by (rule prop_occurrence_found)
  then have "''Prop. 2005/06:55'' \<in> fst ` set ?pairs" by force
  then have bound: "map_of (aggregate ?pairs) ''Prop. 2005/06:55'' =
      Some (pages_in ?pairs ''Prop. 2005/06:55'')"
    by (rule aggregate_map_of)
  have page: "''12'' \<in> pages_in ?pairs ''Prop. 2005/06:55''"
    using mem by (simp add: pages_in_def)
  have only: "(\<forall>p. (''Prop. 2005/06:55'', Some p) \<in> set ?pairs \<longrightarrow> p = ''12'') \<longrightarrow>
      pages_in ?pairs ''Prop. 2005/06:55'' = {''12''}"
    using page by (rule pages_in_only)
  show "\<exists>pages. map_of (aggregate ?pairs) ''Prop. 2005/06:55'' = Some pages \<and> ''12'' \<in> pages \<and>
          ((\<forall>p. (''Prop. 2005/06:55'', Some p) \<in> set ?pairs \<longrightarrow> p = ''12'') \<longrightarrow>
           pages = {''12''})"
    by (rule exI, rule conjI, rule bound, rule conjI, rule page, rule only)
next
  show "aggregate (citations_of_text ''Prop. 2005/06:55 s. 12'') = [(''Prop. 2005/06:55'', {''12''})]"
    by code_simp
qed

text \<open>
  The claim as it is worded has the page set \<open>{12}\<close> for every text that
  contains the citation. With a digit after it the page read is \<open>123\<close>, and a
  second citation of the bill with another page adds that page to the set.
\<close>

theorem prop_page_scenario_counterexample:
  "aggregate (citations_of_text ''Prop. 2005/06:55 s. 123'') = [(''Prop. 2005/06:55'', {''123''})] \<and>
   map_of (aggregate (citations_of_text ''Prop. 2005/06:55 s. 123'')) ''Prop. 2005/06:55'' \<noteq>
     Some {''12''} \<and>
   aggregate (citations_of_text ''Prop. 2005/06:55 s. 12 och prop. 2005/06:55 s. 14'') =
     [(''Prop. 2005/06:55'', {''12'', ''14''})] \<and>
   map_of (aggregate (citations_of_text ''Prop. 2005/06:55 s. 12 och prop. 2005/06:55 s. 14''))
     ''Prop. 2005/06:55'' \<noteq> Some {''12''}"
proof -
  have a: "aggregate (citations_of_text ''Prop. 2005/06:55 s. 123'') =
      [(''Prop. 2005/06:55'', {''123''})]"
    by code_simp
  have b: "aggregate (citations_of_text ''Prop. 2005/06:55 s. 12 och prop. 2005/06:55 s. 14'') =
      [(''Prop. 2005/06:55'', {''12'', ''14''})]"
    by code_simp
  have c: "{''123''} \<noteq> {''12''}" "{''12'', ''14''} \<noteq> {''12''}" by code_simp+
  show ?thesis unfolding a b using c by simp
qed

theorem prop_page_scenario_witness:
  "\<not> is_digit (hd '' ska avtalet tolkas.'') \<and>
   citations_of_text (''Som anges i '' @ ''Prop. 2005/06:55 s. 12'' @ '' ska avtalet tolkas.'') =
     [(''Prop. 2005/06:55'', Some ''12'')] \<and>
   map_of (aggregate (citations_of_text
        (''Som anges i '' @ ''Prop. 2005/06:55 s. 12'' @ '' ska avtalet tolkas.'')))
      ''Prop. 2005/06:55'' = Some {''12''}"
proof -
  let ?T = "''Som anges i '' @ ''Prop. 2005/06:55 s. 12'' @ '' ska avtalet tolkas.''"
  have d: "\<not> is_digit (hd '' ska avtalet tolkas.'')" by (simp add: is_digit_def)
  then have post: "'' ska avtalet tolkas.'' = [] \<or> \<not> is_digit (hd '' ska avtalet tolkas.'')" by blast
  have pairs: "citations_of_text ?T = [(''Prop. 2005/06:55'', Some ''12'')]" by code_simp
  then have only: "\<forall>p. (''Prop. 2005/06:55'', Some p) \<in> set (citations_of_text ?T) \<longrightarrow> p = ''12''"
    by simp
  from mp[OF conjunct1[OF prop_page_scenario[of "'' ska avtalet tolkas.''" "''Som anges i ''"]] post]
  obtain pages where
    bound: "map_of (aggregate (citations_of_text ?T)) ''Prop. 2005/06:55'' = Some pages"
    and rest: "''12'' \<in> pages \<and>
      ((\<forall>p. (''Prop. 2005/06:55'', Some p) \<in> set (citations_of_text ?T) \<longrightarrow> p = ''12'') \<longrightarrow>
       pages = {''12''})"
    by (elim exE conjE) (rule that, assumption, rule conjI)
  have eq: "pages = {''12''}" by (rule mp[OF conjunct2[OF rest] only])
  have "map_of (aggregate (citations_of_text ?T)) ''Prop. 2005/06:55'' = Some {''12''}"
    using bound unfolding eq .
  then show ?thesis by (intro conjI d pairs)
qed

end
